theory Spec2Isabelle
  imports Main "HOL-Library.Sublist" "HOL-Library.Word"
begin

unbundle bit_operations_syntax

section \<open>Data model of package render (linkify.go)\<close>

text \<open>
  Go strings are byte sequences: they are modelled as \<open>string\<close> (a \<open>char list\<close>, one
  \<open>char\<close> per byte). Positions and offsets are natural numbers. A result that the Go code
  cannot deliver because a slice expression panics is \<open>None\<close>.
\<close>

type_synonym pos = nat

text \<open>The kinds of go/token that the code distinguishes (\<open>tokINT\<close> and \<open>tokCHAR\<close> are
  \<open>token.INT\<close> and \<open>token.CHAR\<close>); every other kind is \<open>OTHER\<close>.\<close>

datatype token = EOF | COMMENT | IDENT | tokINT | FLOAT | IMAG | tokCHAR | STRING | OTHER

text \<open>One result of \<open>scanner.Scan\<close>: the offset of the token in the file, its kind, its literal.\<close>

record scanned =
  offset :: nat
  line :: nat
  tok :: token
  lit :: string

text \<open>\<open>ast.Comment\<close>; a \<open>*ast.CommentGroup\<close> is \<open>None\<close> (nil) or the list of its comments.\<close>

datatype ast_comment = AstComment (Slash: pos) (CommentText: string)

type_synonym CommentGroup = "ast_comment list option"

text \<open>
  The syntax tree of go/ast, as far as linkify.go looks into it: identifiers, basic and
  composite literals, value specs and fields are kept with the fields the code reads or
  writes; every other node kind is \<open>Node kind children\<close> with its children in the order
  in which \<open>ast.Walk\<close> and \<open>ast.Inspect\<close> visit them.
\<close>

datatype node =
    Ident string
  | BasicLit pos token string
  | CompositeLit "node option" pos "node list"
  | ValueSpec CommentGroup "node list" "node option" "node list" CommentGroup
  | Field CommentGroup "node list" "node option" "node option" CommentGroup
  | Node string "node list"

text \<open>\<open>doc.Example\<close>, with the fields that \<open>codeString\<close> reads.\<close>

record Example =
  Code :: "node option"
  Play :: "node option"
  Comments :: "ast_comment list list"

text \<open>\<open>codeElement\<close>: a fragment of example code and whether it is a comment.\<close>

record codeElement =
  Text :: string
  Comment :: bool

text \<open>\<open>idKind\<close>: an anchor ID and the kind of the identifier being anchored.\<close>

record idKind =
  ID :: string
  Kind :: string

text \<open>
  \<open>safehtml.HTML\<close> values are kept as the constructor calls that build them:
  \<open>HTMLEscaped\<close> for \<open>safehtml.HTMLEscaped\<close>, \<open>Markup\<close> for a constant template run by
  \<open>template.MustParseAndExecuteToHTML\<close>, \<open>LinkHTML href text\<close> for
  \<open>ExecuteToHTML(LinkTemplate, Link{Href, Text})\<close>, \<open>ToHTML word\<close> for the resolver's
  \<open>idr.toHTML(word)\<close>, \<open>AnchorHTML\<close> for \<open>ExecuteToHTML(anchorTemplate, ik)\<close>,
  \<open>CodeTmplHTML\<close> for \<open>ExecuteToHTML(codeTmpl, els)\<close> and \<open>HTMLConcat\<close> for
  \<open>safehtml.HTMLConcat\<close>.
\<close>

datatype HTML =
    HTMLEscaped string
  | Markup string
  | LinkHTML string string
  | ToHTML string
  | AnchorHTML idKind
  | CodeTmplHTML "codeElement list"
  | HTMLConcat "HTML list"

section \<open>Functions of package strings\<close>

abbreviation NL :: char where "NL \<equiv> CHR 0x0A"
abbreviation TAB :: char where "TAB \<equiv> CHR 0x09"

text \<open>\<open>s[i:j]\<close>; Go panics unless \<open>i \<le> j \<le> len(s)\<close>.\<close>

definition slice :: "string \<Rightarrow> nat \<Rightarrow> nat \<Rightarrow> string option" where
  "slice s i j = (if i \<le> j \<and> j \<le> length s then Some (take (j - i) (drop i s)) else None)"

text \<open>\<open>strings.HasPrefix\<close> is \<open>prefix\<close>, \<open>strings.HasSuffix\<close> is \<open>suffix\<close>.\<close>

text \<open>\<open>strings.Replace(s, old, new, -1)\<close> for a non-empty \<open>old\<close>: every non-overlapping
  occurrence, from the left.\<close>

fun Replace :: "string \<Rightarrow> string \<Rightarrow> string \<Rightarrow> string" where
  "Replace [] old new = []"
| "Replace (c # s) old new =
     (if old \<noteq> [] \<and> prefix old (c # s)
      then new @ Replace (drop (length old - 1) s) old new
      else c # Replace s old new)"

text \<open>\<open>strings.TrimRight(s, "\n")\<close>, \<open>strings.TrimLeft(s, "\n")\<close> and \<open>strings.Trim(s, "\n")\<close>.\<close>

definition TrimRightNL :: "string \<Rightarrow> string" where
  "TrimRightNL s = rev (dropWhile (\<lambda>c. c = NL) (rev s))"

definition TrimNL :: "string \<Rightarrow> string" where
  "TrimNL s = TrimRightNL (dropWhile (\<lambda>c. c = NL) s)"

section \<open>Bytes, runes and more functions of the Go library\<close>

subsection \<open>Bytes, runes and character classes\<close>

definition byte :: "char \<Rightarrow> nat" where
  "byte c = of_char c"

definition isASCIILetter :: "char \<Rightarrow> bool" where
  "isASCIILetter c \<longleftrightarrow> (0x41 \<le> byte c \<and> byte c \<le> 0x5A) \<or> (0x61 \<le> byte c \<and> byte c \<le> 0x7A)"

definition isASCIIDigit :: "char \<Rightarrow> bool" where
  "isASCIIDigit c \<longleftrightarrow> 0x30 \<le> byte c \<and> byte c \<le> 0x39"

text \<open>
  The regular expressions and \<open>strings.FieldsFunc\<close> read a string rune by rune.
  \<open>DecodeRune\<close> is \<open>utf8.DecodeRuneInString\<close>: the rune that the text starts with and the
  number of its bytes; a byte that does not start a well-formed encoding is read as
  \<open>utf8.RuneError\<close> (\<open>U+FFFD\<close>) of width 1.
\<close>

type_synonym rune = nat

definition contByte :: "char \<Rightarrow> bool" where
  "contByte c \<longleftrightarrow> 0x80 \<le> byte c \<and> byte c \<le> 0xBF"

definition RuneError :: rune where
  "RuneError = 0xFFFD"

fun DecodeRune :: "string \<Rightarrow> rune \<times> nat" where
  "DecodeRune [] = (RuneError, 0)"
| "DecodeRune (c0 # s) =
     (let b0 = byte c0 in
      if b0 < 0x80 then (b0, 1)
      else if 0xC2 \<le> b0 \<and> b0 \<le> 0xDF then
        (case s of
           c1 # _ \<Rightarrow>
             if contByte c1 then ((b0 - 0xC0) * 64 + (byte c1 - 0x80), 2) else (RuneError, 1)
         | _ \<Rightarrow> (RuneError, 1))
      else if 0xE0 \<le> b0 \<and> b0 \<le> 0xEF then
        (case s of
           c1 # c2 # _ \<Rightarrow>
             if (if b0 = 0xE0 then 0xA0 else 0x80) \<le> byte c1
                \<and> byte c1 \<le> (if b0 = 0xED then 0x9F else 0xBF) \<and> contByte c2
             then ((b0 - 0xE0) * 4096 + (byte c1 - 0x80) * 64 + (byte c2 - 0x80), 3)
             else (RuneError, 1)
         | _ \<Rightarrow> (RuneError, 1))
      else if 0xF0 \<le> b0 \<and> b0 \<le> 0xF4 then
        (case s of
           c1 # c2 # c3 # _ \<Rightarrow>
             if (if b0 = 0xF0 then 0x90 else 0x80) \<le> byte c1
                \<and> byte c1 \<le> (if b0 = 0xF4 then 0x8F else 0xBF) \<and> contByte c2 \<and> contByte c3
             then ((b0 - 0xF0) * 262144 + (byte c1 - 0x80) * 4096 + (byte c2 - 0x80) * 64
                     + (byte c3 - 0x80), 4)
             else (RuneError, 1)
         | _ \<Rightarrow> (RuneError, 1))
      else (RuneError, 1))"

text \<open>
  The Unicode tables of the Go library are a parameter: \<open>pL\<close> says which runes from
  \<open>U+0080\<close> on are letters (category L), \<open>pN\<close> which are numbers (category N), and \<open>pNd\<close>
  which of the numbers are decimal digits (category Nd, the \<open>unicode_digit\<close> of the
  language). Below \<open>U+0080\<close> the letters are \<open>A-Z\<close> and \<open>a-z\<close> and the numbers are the decimal
  digits \<open>0-9\<close>; \<open>U+FFFD\<close> is neither a letter nor a number.
\<close>

record unicode =
  pL :: "rune \<Rightarrow> bool"
  pN :: "rune \<Rightarrow> bool"
  pNd :: "rune \<Rightarrow> bool"

datatype runeClass = Letter | Number | OtherRune

definition classOf :: "unicode \<Rightarrow> rune \<Rightarrow> runeClass" where
  "classOf uni r =
     (if r < 0x80 then
        (if (0x41 \<le> r \<and> r \<le> 0x5A) \<or> (0x61 \<le> r \<and> r \<le> 0x7A) then Letter
         else if 0x30 \<le> r \<and> r \<le> 0x39 then Number else OtherRune)
      else if r = RuneError then OtherRune
      else if pL uni r then Letter
      else if pN uni r then Number
      else OtherRune)"

definition runeAt :: "unicode \<Rightarrow> string \<Rightarrow> runeClass \<times> nat" where
  "runeAt uni s = (case DecodeRune s of (r, w) \<Rightarrow> (classOf uni r, w))"

lemma DecodeRune_width: "s \<noteq> [] \<Longrightarrow> 1 \<le> snd (DecodeRune s) \<and> snd (DecodeRune s) \<le> length s"
  by (cases s) (auto simp: Let_def split: list.splits)

lemma runeAt_width: "s \<noteq> [] \<Longrightarrow> runeAt uni s = (cl, w) \<Longrightarrow> 1 \<le> w \<and> w \<le> length s"
  using DecodeRune_width[of s] by (auto simp: runeAt_def split: prod.splits)

text \<open>The runes of a string, in order.\<close>

function runes :: "string \<Rightarrow> rune list" where
  "runes s = (if s = [] then [] else fst (DecodeRune s) # runes (drop (snd (DecodeRune s)) s))"
  by pat_completeness auto
termination
proof (relation "measure length", goal_cases)
  case 1
  show ?case by simp
next
  case (2 s)
  with DecodeRune_width[of s] show ?case by simp
qed

text \<open>
  Tables with no letter and no number from \<open>U+0080\<close> on: on a text of ASCII bytes every
  choice of the tables gives the same classes as these.
\<close>

definition asciiTables :: unicode where
  "asciiTables = \<lparr>pL = (\<lambda>r. False), pN = (\<lambda>r. False), pNd = (\<lambda>r. False)\<rparr>"

text \<open>
  The tables of Unicode for the runes \<open>U+0080\<close> to \<open>U+00FF\<close>: the letters are \<open>U+00AA\<close>,
  \<open>U+00B5\<close>, \<open>U+00BA\<close> and \<open>U+00C0\<close> to \<open>U+00FF\<close> without the two signs \<open>U+00D7\<close> and
  \<open>U+00F7\<close>; the numbers are the superscripts \<open>U+00B2\<close>, \<open>U+00B3\<close>, \<open>U+00B9\<close> and the
  fractions \<open>U+00BC\<close> to \<open>U+00BE\<close> (all of category No); none is a decimal digit.
\<close>

definition latin1Tables :: unicode where
  "latin1Tables =
     \<lparr>pL = (\<lambda>r. r = 0xAA \<or> r = 0xB5 \<or> r = 0xBA
                 \<or> (0xC0 \<le> r \<and> r \<le> 0xFF \<and> r \<noteq> 0xD7 \<and> r \<noteq> 0xF7)),
      pN = (\<lambda>r. r = 0xB2 \<or> r = 0xB3 \<or> r = 0xB9 \<or> (0xBC \<le> r \<and> r \<le> 0xBE)),
      pNd = (\<lambda>r. False)\<rparr>"

subsection \<open>Functions of package strings and unicode\<close>

text \<open>
  \<open>strings.IndexByte\<close> and \<open>strings.LastIndexAny\<close> return \<open>-1\<close> when there is no
  occurrence. \<open>lastIndexWhere P s\<close> is the last index at which the rest of \<open>s\<close> satisfies
  \<open>P\<close>; \<open>LastIndexAny2 s a b\<close> is \<open>strings.LastIndexAny(s, "ab")\<close> for two ASCII
  characters, and \<open>LastIndexAnyQuote s\<close> is \<open>strings.LastIndexAny\<close> for the three quote
  characters of \<open>countQuotes\<close>: the ASCII double quote and the two typographic quotes,
  which are three bytes each in UTF-8. \<open>strings.Count\<close> of a single byte is
  \<open>count_list\<close>.
\<close>

fun IndexByte :: "string \<Rightarrow> char \<Rightarrow> int" where
  "IndexByte [] c = - 1"
| "IndexByte (x # s) c =
     (if x = c then 0 else (let r = IndexByte s c in if r < 0 then - 1 else r + 1))"

fun lastIndexWhere :: "(string \<Rightarrow> bool) \<Rightarrow> string \<Rightarrow> int" where
  "lastIndexWhere P [] = - 1"
| "lastIndexWhere P (c # s) =
     (let r = lastIndexWhere P s in if r \<ge> 0 then r + 1 else if P (c # s) then 0 else - 1)"

definition LastIndexAny2 :: "string \<Rightarrow> char \<Rightarrow> char \<Rightarrow> int" where
  "LastIndexAny2 s a b = lastIndexWhere (\<lambda>t. hd t = a \<or> hd t = b) s"

fun Contains :: "string \<Rightarrow> string \<Rightarrow> bool" where
  "Contains [] sub = (sub = [])"
| "Contains (c # s) sub = (prefix sub (c # s) \<or> Contains s sub)"

text \<open>\<open>convertQuotes\<close>: the replacer turns two backquotes into \<open>ulquo\<close> and two single
  quotes into \<open>urquo\<close>, from the left, without overlap.\<close>

definition ulquo :: string where "ulquo = [CHR 0xE2, CHR 0x80, CHR 0x9C]"
definition urquo :: string where "urquo = [CHR 0xE2, CHR 0x80, CHR 0x9D]"

fun convertQuotes :: "string \<Rightarrow> string" where
  "convertQuotes (a # b # s) =
     (if a = CHR 0x60 \<and> b = CHR 0x60 then ulquo @ convertQuotes s
      else if a = CHR 0x27 \<and> b = CHR 0x27 then urquo @ convertQuotes s
      else a # convertQuotes (b # s))"
| "convertQuotes s = s"

definition quoteStart :: "string \<Rightarrow> bool" where
  "quoteStart s \<longleftrightarrow> prefix [CHR 0x22] s \<or> prefix ulquo s \<or> prefix urquo s"

definition LastIndexAnyQuote :: "string \<Rightarrow> int" where
  "LastIndexAnyQuote s = lastIndexWhere quoteStart s"

lemma lastIndexWhere_less: "lastIndexWhere P s < int (length s)"
  by (induction s) (auto simp: Let_def)

lemma lastIndexWhere_ge: "- 1 \<le> lastIndexWhere P s"
  by (induction s) (auto simp: Let_def)

text \<open>\<open>countQuotes\<close>: the loop
  \<open>for i := len(s); i >= 0; i = strings.LastIndexAny(s[:i], ...) { n++ }\<close> with \<open>n\<close>
  starting at \<open>-1\<close>.\<close>

function countQuotesFrom :: "string \<Rightarrow> int \<Rightarrow> int \<Rightarrow> int" where
  "countQuotesFrom s i n =
     (if i \<ge> 0 then countQuotesFrom s (LastIndexAnyQuote (take (nat i) s)) (n + 1) else n)"
  by pat_completeness auto
termination
proof (relation "measure (\<lambda>(s, i, n). nat (i + 1))", goal_cases)
  case 1
  show ?case by simp
next
  case (2 s i n)
  have "LastIndexAnyQuote (take (nat i) s) < int (length (take (nat i) s))"
    unfolding LastIndexAnyQuote_def by (rule lastIndexWhere_less)
  moreover have "- 1 \<le> LastIndexAnyQuote (take (nat i) s)"
    unfolding LastIndexAnyQuote_def by (rule lastIndexWhere_ge)
  ultimately show ?case using 2 by auto
qed

definition countQuotes :: "string \<Rightarrow> int" where
  "countQuotes s = countQuotesFrom s (int (length s)) (- 1)"

text \<open>\<open>unicode.IsSpace(rune(b))\<close> for a byte \<open>b\<close>, and \<open>strings.FieldsFunc\<close> with the
  function of the RFC case: a rune separates fields unless it is a letter, a number or
  a dot. \<open>cur\<close> is the field being read.\<close>

definition IsSpaceByte :: "char \<Rightarrow> bool" where
  "IsSpaceByte c \<longleftrightarrow> (0x09 \<le> byte c \<and> byte c \<le> 0x0D) \<or> byte c = 0x20 \<or> byte c = 0x85 \<or> byte c = 0xA0"

function fieldsFrom :: "unicode \<Rightarrow> string \<Rightarrow> string \<Rightarrow> string list" where
  "fieldsFrom uni cur s =
     (if s = [] then (if cur = [] then [] else [cur])
      else (case runeAt uni s of (cl, w) \<Rightarrow>
        if cl = OtherRune \<and> hd s \<noteq> CHR ''.''
        then (if cur = [] then [] else [cur]) @ fieldsFrom uni [] (drop w s)
        else fieldsFrom uni (cur @ take w s) (drop w s)))"
  by pat_completeness auto
termination
proof (relation "measure (\<lambda>(uni, cur, s). length s)", goal_cases)
  case 1
  show ?case by simp
next
  case 2
  then show ?case by (auto dest: runeAt_width[OF _ sym])
next
  case 3
  then show ?case by (auto dest: runeAt_width[OF _ sym])
qed

definition rfcFieldsOf :: "unicode \<Rightarrow> string \<Rightarrow> string list" where
  "rfcFieldsOf uni word = fieldsFrom uni [] word"

section \<open>Example code: codeString and codeHTML\<close>

text \<open>
  \<open>codeString\<close> returns \<open>(string, error)\<close>. Its own error is the value made by
  \<open>errors.New("Please include an example with code")\<close>; the other errors are the ones
  \<open>format.Node\<close> returns. \<open>format.Node\<close> belongs to the Go library: it is the parameter
  \<open>formatNode\<close>, from the node (and the comments printed with it) to the formatted text
  or the message of its error.
\<close>

datatype error = PleaseIncludeAnExampleWithCode | FormatNodeError string

definition codeString ::
  "(node \<Rightarrow> ast_comment list list \<Rightarrow> string + string) \<Rightarrow> Example option \<Rightarrow> error + string" where
  "codeString formatNode ex =
     (case ex of
        None \<Rightarrow> Inl PleaseIncludeAnExampleWithCode
      | Some e \<Rightarrow>
          (case Code e of
             None \<Rightarrow> Inl PleaseIncludeAnExampleWithCode
           | Some code \<Rightarrow>
               (case Play e of
                  Some play \<Rightarrow>
                    (case formatNode play [] of
                       Inl err \<Rightarrow> Inl (FormatNodeError err)
                     | Inr buf \<Rightarrow> Inr buf)
                | None \<Rightarrow>
                    (case formatNode code (Comments e) of
                       Inl err \<Rightarrow> Inl (FormatNodeError err)
                     | Inr buf \<Rightarrow> Inr buf))))"

text \<open>
  Modelled from the spec: \<open>indentLength\<close> is a function of package render that is not in
  the sources at hand; the spec says that the formatter strips "matching indentation",
  which is the run of spaces and tabs the text starts with.
\<close>

definition indentLength :: "string \<Rightarrow> nat" where
  "indentLength s = length (takeWhile (\<lambda>c. c = CHR '' '' \<or> c = TAB) s)"

text \<open>The first block of \<open>codeHTML\<close>: a source that is a block statement loses its braces
  and the indentation of its first line. The result is the new source and \<open>indent\<close>.\<close>

definition trimBraces :: "string \<Rightarrow> string \<times> string" where
  "trimBraces src =
     (if length src \<ge> 4 \<and> prefix [CHR ''{'', NL] src \<and> suffix [NL, CHR ''}''] src
      then (let src1 = TrimNL (take (length src - 4) (drop 2 src));
                indent = take (indentLength src1) src1
            in (if length indent > 0 then (drop (length indent) src1, indent) else (src1, indent)))
      else (src, []))"

text \<open>
  The scan loop of \<open>codeHTML\<close>. The scanner of go/scanner is a parameter of the model: the
  list of the tokens that the calls of \<open>s.Scan()\<close> return before \<open>token.EOF\<close>; at EOF the
  scanner reports the offset \<open>len(src)\<close>. \<open>exampleOutputRx.MatchString\<close> is the parameter
  \<open>isOutput\<close> (the regular expression is declared outside the sources at hand). The state
  of the loop is \<open>lastOffset\<close>, \<open>els\<close> and \<open>outputOffset\<close>. After a comment \<open>lastOffset\<close>
  advances by the length of the literal in which \<open>indent\<close> has been replaced, as
  \<open>lastOffset += len(lit)\<close> comes after the assignment to \<open>lit\<close>.
\<close>

fun scanCode ::
  "string \<Rightarrow> (string \<Rightarrow> bool) \<Rightarrow> string \<Rightarrow> scanned list \<Rightarrow> nat \<Rightarrow> codeElement list \<Rightarrow> int
     \<Rightarrow> (codeElement list \<times> int) option" where
  "scanCode indent isOutput src [] lastOffset els outputOffset =
     (case slice src lastOffset (length src) of
        None \<Rightarrow> None
      | Some prev \<Rightarrow>
          Some (els @ [\<lparr>Text = Replace prev indent [NL], Comment = False\<rparr>], outputOffset))"
| "scanCode indent isOutput src (t # ts) lastOffset els outputOffset =
     (case slice src lastOffset (offset t) of
        None \<Rightarrow> None
      | Some prev \<Rightarrow>
          (let els1 = els @ [\<lparr>Text = Replace prev indent [NL], Comment = False\<rparr>] in
           if tok t = EOF then Some (els1, outputOffset)
           else if tok t = COMMENT then
             (let lit1 = Replace (lit t) indent [NL] in
              scanCode indent isOutput src ts (offset t + length lit1)
                (els1 @ [\<lparr>Text = lit1, Comment = True\<rparr>])
                (if isOutput (lit t) then int (length els1) else outputOffset))
           else if tok t = STRING then
             scanCode indent isOutput src ts (offset t + length (lit t))
               (els1 @ [\<lparr>Text = lit t, Comment = False\<rparr>]) outputOffset
           else scanCode indent isOutput src ts (offset t) els1 outputOffset))"

text \<open>The end of \<open>codeHTML\<close>: cut at \<open>outputOffset\<close>, trim the newlines of the last element.\<close>

definition trimLast :: "codeElement list \<Rightarrow> codeElement list" where
  "trimLast els =
     (if length els > 0
      then els[length els - 1 := (els ! (length els - 1))\<lparr>Text := TrimRightNL (Text (els ! (length els - 1)))\<rparr>]
      else els)"

definition cutOutput :: "codeElement list \<times> int \<Rightarrow> codeElement list" where
  "cutOutput r = (case r of (els, outputOffset) \<Rightarrow>
     trimLast (if outputOffset \<ge> 0 then take (nat outputOffset) els else els))"

text \<open>The elements that \<open>codeHTML(src, codeTmpl)\<close> hands to the template.\<close>

definition codeElements ::
  "(string \<Rightarrow> scanned list) \<Rightarrow> (string \<Rightarrow> bool) \<Rightarrow> string \<Rightarrow> codeElement list option" where
  "codeElements scan isOutput src =
     (case trimBraces src of (src1, indent) \<Rightarrow>
        map_option cutOutput (scanCode (NL # indent) isOutput src1 (scan src1) 0 [] (- 1)))"

definition codeHTML ::
  "(string \<Rightarrow> scanned list) \<Rightarrow> (string \<Rightarrow> bool) \<Rightarrow> string \<Rightarrow> HTML option" where
  "codeHTML scan isOutput src = map_option CodeTmplHTML (codeElements scan isOutput src)"

text \<open>The method \<open>(*Renderer).codeHTML\<close>.\<close>

definition errorPlaceholder :: HTML where
  \<open>errorPlaceholder =
     Markup ''<pre class="Documentation-exampleCode">Error rendering example code.</pre>''\<close>

definition Renderer_codeHTML ::
  "(node \<Rightarrow> ast_comment list list \<Rightarrow> string + string) \<Rightarrow> (string \<Rightarrow> scanned list)
     \<Rightarrow> (string \<Rightarrow> bool) \<Rightarrow> Example option \<Rightarrow> HTML option" where
  "Renderer_codeHTML formatNode scan isOutput ex =
     (case codeString formatNode ex of
        Inl err \<Rightarrow> Some errorPlaceholder
      | Inr codeStr \<Rightarrow> codeHTML scan isOutput codeStr)"

subsection \<open>Notions for the theorems about codeHTML\<close>

text \<open>The number of elements that the scan loop appends for a list of tokens: the text
  before each token, and the token itself when it is a comment or a string.\<close>

fun elementCount :: "scanned list \<Rightarrow> nat" where
  "elementCount [] = 0"
| "elementCount (t # ts) = (if tok t = COMMENT \<or> tok t = STRING then 2 else 1) + elementCount ts"

text \<open>
  What the loop expects of the scanner: the tokens come in the order of the source and do
  not overlap, no token before the end is \<open>EOF\<close>, and the literal of a comment or a
  string is the text of the source at its offset.
\<close>

fun tokensOK :: "string \<Rightarrow> nat \<Rightarrow> scanned list \<Rightarrow> bool" where
  "tokensOK src lastOffset [] = (lastOffset \<le> length src)"
| "tokensOK src lastOffset (t # ts) =
     (tok t \<noteq> EOF \<and> lastOffset \<le> offset t \<and>
      (if tok t = COMMENT \<or> tok t = STRING
       then slice src (offset t) (offset t + length (lit t)) = Some (lit t)
            \<and> tokensOK src (offset t + length (lit t)) ts
       else offset t \<le> length src \<and> tokensOK src (offset t) ts))"

text \<open>The tokens of the source text
  \<open>x\<newline>// Output: 1\<newline>y\<newline>// Output: 2\<newline>\<close>; the scanner reports an inserted semicolon
  at each end of line after an identifier, here as \<open>OTHER\<close>.\<close>

definition exScan :: "string \<Rightarrow> scanned list" where
  "exScan s = [\<lparr>offset = 0, line = 1, tok = IDENT, lit = ''x''\<rparr>,
     \<lparr>offset = 1, line = 1, tok = OTHER, lit = [NL]\<rparr>,
     \<lparr>offset = 2, line = 2, tok = COMMENT, lit = ''// Output: 1''\<rparr>,
     \<lparr>offset = 15, line = 3, tok = IDENT, lit = ''y''\<rparr>,
     \<lparr>offset = 16, line = 3, tok = OTHER, lit = [NL]\<rparr>,
     \<lparr>offset = 17, line = 4, tok = COMMENT, lit = ''// Output: 2''\<rparr>]"

text \<open>
  A block with a comment of several lines: \<open>cmtSrc\<close> is the text
  \<open>{\<newline>\<^verbatim>\<open>\t\<close>/*\<newline>\<^verbatim>\<open>\t\<close>a\<newline>\<^verbatim>\<open>\t\<close>*/\<newline>\<^verbatim>\<open>\t\<close>x\<newline>}\<close>, as \<open>format.Node\<close> prints the block statement of an
  example, and \<open>cmtBody\<close> is what is left of it without its braces and the indentation of
  its first line. \<open>cmtScan\<close> gives the tokens of \<open>cmtBody\<close>: the comment, the identifier,
  and the semicolon that the scanner inserts at the end.
\<close>

definition cmtLit :: string where
  "cmtLit = ''/*'' @ [NL, TAB] @ ''a'' @ [NL, TAB] @ ''*/''"

definition cmtBody :: string where
  "cmtBody = cmtLit @ [NL, TAB] @ ''x''"

definition cmtSrc :: string where
  "cmtSrc = [CHR ''{'', NL, TAB] @ cmtBody @ [NL, CHR ''}'']"

definition cmtScan :: "string \<Rightarrow> scanned list" where
  "cmtScan s = [\<lparr>offset = 0, line = 1, tok = COMMENT, lit = cmtLit\<rparr>,
     \<lparr>offset = 11, line = 4, tok = IDENT, lit = ''x''\<rparr>,
     \<lparr>offset = 12, line = 4, tok = OTHER, lit = [NL]\<rparr>]"

section \<open>Anchor IDs: ValidateGoDottedExpr and SafeGoID\<close>

text \<open>
  The regular expression \<open>badIDRx = [^_\pL\pN.]\<close> matches a string when one of its runes
  is not an underscore, a letter, a number or a dot. A call of \<open>ValidateGoDottedExpr\<close>
  either returns or panics (with a message that quotes the string).
\<close>

datatype 'a outcome = Returns 'a | Panics string

definition badIDClass :: "unicode \<Rightarrow> rune \<Rightarrow> bool" where
  "badIDClass uni r =
     (\<not> (r = 0x5F \<or> classOf uni r = Letter \<or> classOf uni r = Number \<or> r = 0x2E))"

fun matchAnyRune :: "(rune \<Rightarrow> bool) \<Rightarrow> rune list \<Rightarrow> bool" where
  "matchAnyRune cl [] = False"
| "matchAnyRune cl (r # rs) = (if cl r then True else matchAnyRune cl rs)"

definition badIDRx_MatchString :: "unicode \<Rightarrow> string \<Rightarrow> bool" where
  "badIDRx_MatchString uni s = matchAnyRune (badIDClass uni) (runes s)"

definition ValidateGoDottedExpr :: "unicode \<Rightarrow> string \<Rightarrow> unit outcome" where
  "ValidateGoDottedExpr uni s = (if badIDRx_MatchString uni s then Panics s else Returns ())"

definition SafeGoID :: "unicode \<Rightarrow> string \<Rightarrow> string outcome" where
  "SafeGoID uni s =
     (case ValidateGoDottedExpr uni s of Panics m \<Rightarrow> Panics m | Returns u \<Rightarrow> Returns s)"

text \<open>
  The characters of an identifier of the language (the Go specification, "Identifiers"):
  the underscore, the letters of Unicode, and the decimal digits of Unicode.
\<close>

definition goIdentRune :: "unicode \<Rightarrow> rune \<Rightarrow> bool" where
  "goIdentRune uni r \<longleftrightarrow>
     r = 0x5F \<or> classOf uni r = Letter
     \<or> (if r < 0x80 then 0x30 \<le> r \<and> r \<le> 0x39 else r \<noteq> RuneError \<and> pNd uni r)"

section \<open>Declarations: formatDeclHTML\<close>

text \<open>\<open>lineType\<close> is a byte of two bits, \<open>codeType\<close> and \<open>commentType\<close>, which may be
  OR-ed together.\<close>

type_synonym lineType = "8 word"

definition codeType :: lineType where "codeType = 1"
definition commentType :: lineType where "commentType = 2"

text \<open>The variables of the scan loop of \<open>formatDeclHTML\<close>.\<close>

record declState =
  idIdx :: nat
  lastOffset :: nat
  anchorLines :: "idKind list list"
  lineTypes :: "lineType list"
  htmlLines :: "HTML list list"

text \<open>\<open>strings.SplitAfter(s, "\n")\<close> and \<open>strings.TrimSuffix(s, "\n")\<close>.\<close>

fun SplitAfterNL :: "string \<Rightarrow> string list" where
  "SplitAfterNL [] = [[]]"
| "SplitAfterNL (c # s) =
     (if c = NL then [NL] # SplitAfterNL s
      else (case SplitAfterNL s of [] \<Rightarrow> [[c]] | h # t \<Rightarrow> (c # h) # t))"

definition TrimSuffixNL :: "string \<Rightarrow> string" where
  "TrimSuffixNL s = (if suffix [NL] s then take (length s - 1) s else s)"

text \<open>The loop over \<open>prevLines\<close>: the piece with index \<open>i\<close> goes to the line
  \<open>line - len(prevLines) + i + 1\<close>, or to line 0 when that is negative. The first argument
  is that number for the first piece of the list. Indexing \<open>htmlLines\<close> out of range
  panics.\<close>

fun addPrevLines :: "int \<Rightarrow> string list \<Rightarrow> HTML list list \<Rightarrow> HTML list list option" where
  "addPrevLines n [] H = Some H"
| "addPrevLines n (ln # lns) H =
     (let m = (if n < 0 then 0 else nat n) in
      if m < length H then addPrevLines (n + 1) lns (H[m := H ! m @ [HTMLEscaped ln]])
      else None)"

text \<open>The loop \<open>for i := strings.Count(...); i >= 0; i-- { lineTypes[line+i] |= tokType }\<close>.\<close>

fun markLines :: "lineType \<Rightarrow> nat \<Rightarrow> nat \<Rightarrow> lineType list \<Rightarrow> lineType list option" where
  "markLines tokType ln 0 T =
     (if ln < length T then Some (T[ln := T ! ln OR tokType]) else None)"
| "markLines tokType ln (Suc i) T =
     (if ln + Suc i < length T
      then markLines tokType ln i (T[ln + Suc i := T ! (ln + Suc i) OR tokType])
      else None)"

text \<open>
  The scan loop. As for \<open>codeHTML\<close> the tokens before \<open>token.EOF\<close> are a parameter, each
  with its offset and its line (\<open>file.Line(p)\<close>, counted from 1); at EOF the scanner
  reports the offset \<open>len(src)\<close>, which is on the last line. \<open>formatLine\<close> stands for
  \<open>r.formatLineHTML(lit, idr)\<close>; \<open>anchorPoints\<close> and \<open>anchorLinks\<close> are the two slices
  that \<open>formatDeclHTML\<close> fills by \<open>ast.Inspect\<close>.
\<close>

fun scanDecl ::
  "(string \<Rightarrow> HTML option) \<Rightarrow> idKind list \<Rightarrow> string list \<Rightarrow> string \<Rightarrow> scanned list
     \<Rightarrow> declState \<Rightarrow> declState option" where
  "scanDecl formatLine anchorPoints anchorLinks src [] st =
     (case slice src (lastOffset st) (length src) of
        None \<Rightarrow> None
      | Some prev \<Rightarrow>
          (let ln = count_list src NL; prevLines = SplitAfterNL prev in
           case addPrevLines (int ln - int (length prevLines) + 1) prevLines (htmlLines st) of
             None \<Rightarrow> None
           | Some H \<Rightarrow> Some (st\<lparr>lastOffset := length src, htmlLines := H\<rparr>)))"
| "scanDecl formatLine anchorPoints anchorLinks src (t # ts) st =
     (case slice src (lastOffset st) (offset t) of
        None \<Rightarrow> None
      | Some prev \<Rightarrow>
          (let ln = line t - 1; prevLines = SplitAfterNL prev in
           case addPrevLines (int ln - int (length prevLines) + 1) prevLines (htmlLines st) of
             None \<Rightarrow> None
           | Some H \<Rightarrow>
               if tok t = EOF then Some (st\<lparr>lastOffset := offset t, htmlLines := H\<rparr>)
               else if tok t = COMMENT then
                 (if ln < length H then
                    (case formatLine (lit t) of
                       None \<Rightarrow> None
                     | Some h \<Rightarrow>
                         (case markLines commentType ln (count_list (TrimSuffixNL (lit t)) NL) (lineTypes st) of
                            None \<Rightarrow> None
                          | Some T \<Rightarrow>
                              scanDecl formatLine anchorPoints anchorLinks src ts
                                (st\<lparr>lastOffset := offset t + length (lit t),
                                    lineTypes := T,
                                    htmlLines := H[ln := H ! ln @
                                      [Markup ''<span class=\"comment\">'', h, Markup ''</span>'']]\<rparr>)))
                  else None)
               else if tok t = IDENT then
                 (if idIdx st < length anchorPoints \<and> ID (anchorPoints ! idIdx st) \<noteq> []
                     \<and> \<not> ln < length (anchorLines st) then None
                  else if idIdx st < length anchorLinks \<and> anchorLinks ! idIdx st \<noteq> []
                     \<and> \<not> ln < length H then None
                  else
                    (case markLines codeType ln (count_list (TrimSuffixNL (lit t)) NL) (lineTypes st) of
                       None \<Rightarrow> None
                     | Some T \<Rightarrow>
                         scanDecl formatLine anchorPoints anchorLinks src ts
                           (st\<lparr>idIdx := idIdx st + 1,
                               lastOffset :=
                                 (if idIdx st < length anchorLinks \<and> anchorLinks ! idIdx st \<noteq> []
                                  then offset t + length (lit t) else offset t),
                               anchorLines :=
                                 (if idIdx st < length anchorPoints \<and> ID (anchorPoints ! idIdx st) \<noteq> []
                                  then (anchorLines st)[ln := anchorLines st ! ln @ [anchorPoints ! idIdx st]]
                                  else anchorLines st),
                               lineTypes := T,
                               htmlLines :=
                                 (if idIdx st < length anchorLinks \<and> anchorLinks ! idIdx st \<noteq> []
                                  then H[ln := H ! ln @ [LinkHTML (anchorLinks ! idIdx st) (lit t)]]
                                  else H)\<rparr>)))
               else
                 (case markLines codeType ln (count_list (TrimSuffixNL (lit t)) NL) (lineTypes st) of
                    None \<Rightarrow> None
                  | Some T \<Rightarrow>
                      scanDecl formatLine anchorPoints anchorLinks src ts
                        (st\<lparr>lastOffset := offset t, lineTypes := T, htmlLines := H\<rparr>))))"

text \<open>The anchor-hoist pass. \<open>runStart\<close> is the inner loop
  \<open>for j > 0 && lineTypes[j-1] == commentType { j-- }\<close> started at \<open>j = i\<close>.\<close>

fun runStart :: "lineType list \<Rightarrow> nat \<Rightarrow> nat" where
  "runStart T 0 = 0"
| "runStart T (Suc j) = (if T ! j = commentType then runStart T j else Suc j)"

function hoistFrom :: "lineType list \<Rightarrow> nat \<Rightarrow> idKind list list \<Rightarrow> idKind list list" where
  "hoistFrom T i A =
     (if i < length A then
        (if i + 1 = length A \<or> length (A ! (i + 1)) = 0
         then (let j = runStart T i in hoistFrom T (i + 1) (A[i := A ! j, j := A ! i]))
         else hoistFrom T (i + 1) A)
      else A)"
  by pat_completeness auto
termination
  by (relation "measure (\<lambda>(T, i, A). length A - i)") auto

definition hoistAnchors :: "lineType list \<Rightarrow> idKind list list \<Rightarrow> idKind list list" where
  "hoistAnchors T A = hoistFrom T 0 A"


text \<open>The state in which the scan loop starts, for a source of \<open>numLines\<close> lines.\<close>

definition initDecl :: "nat \<Rightarrow> declState" where
  "initDecl numLines = \<lparr>idIdx = 0, lastOffset = 0, anchorLines = replicate numLines [],
     lineTypes = replicate numLines 0, htmlLines = replicate numLines []\<rparr>"

text \<open>
  Two notions for the proof about the hoist pass. \<open>anchoredCode\<close>: every line that
  carries an anchor has the code bit. \<open>hoistDest T A i e\<close> is the line on which the anchors
  of line \<open>e\<close> stand once the pass is done with the lines before \<open>i\<close>, and \<open>hoistInv\<close>
  says that the array \<open>B\<close> holds the anchors of \<open>A\<close> on exactly those lines.
\<close>

definition anchoredCode :: "declState \<Rightarrow> bool" where
  "anchoredCode st \<longleftrightarrow> length (lineTypes st) = length (anchorLines st)
     \<and> list_all (\<lambda>k. anchorLines st ! k = [] \<or> odd (lineTypes st ! k)) [0..<length (anchorLines st)]"

definition hoistDest :: "lineType list \<Rightarrow> idKind list list \<Rightarrow> nat \<Rightarrow> nat \<Rightarrow> nat" where
  "hoistDest T A i e =
     (if e < i \<and> (Suc e = length A \<or> A ! Suc e = []) then runStart T e else e)"

definition hoistInv :: "lineType list \<Rightarrow> idKind list list \<Rightarrow> nat \<Rightarrow> idKind list list \<Rightarrow> bool" where
  "hoistInv T A i B \<longleftrightarrow> length B = length A \<and>
     (\<forall>k < length A.
        (\<forall>e < length A. A ! e \<noteq> [] \<and> hoistDest T A i e = k \<longrightarrow> B ! k = A ! e)
        \<and> ((\<forall>e < length A. A ! e \<noteq> [] \<longrightarrow> hoistDest T A i e \<noteq> k) \<longrightarrow> B ! k = []))"

text \<open>A declaration as the printer writes it, and its tokens:
  \<^verbatim>\<open>const (\<close>, \<^verbatim>\<open>// A is first.\<close>, \<^verbatim>\<open>A = 1\<close>, \<^verbatim>\<open>)\<close> on four lines, the middle two lines
  indented by a tab.\<close>

definition constSrc :: string where
  "constSrc = ''const ('' @ [NL, TAB] @ ''// A is first.'' @ [NL, TAB] @ ''A = 1'' @ [NL] @ '')''"

definition constToks :: "scanned list" where
  "constToks =
    [\<lparr>offset = 0, line = 1, tok = OTHER, lit = ''const''\<rparr>,
     \<lparr>offset = 6, line = 1, tok = OTHER, lit = []\<rparr>,
     \<lparr>offset = 9, line = 2, tok = COMMENT, lit = ''// A is first.''\<rparr>,
     \<lparr>offset = 25, line = 3, tok = IDENT, lit = ''A''\<rparr>,
     \<lparr>offset = 27, line = 3, tok = OTHER, lit = []\<rparr>,
     \<lparr>offset = 29, line = 3, tok = tokINT, lit = ''1''\<rparr>,
     \<lparr>offset = 30, line = 3, tok = OTHER, lit = [NL]\<rparr>,
     \<lparr>offset = 31, line = 4, tok = OTHER, lit = []\<rparr>,
     \<lparr>offset = 32, line = 4, tok = OTHER, lit = [NL]\<rparr>]"

definition constState :: declState where
  "constState =
  \<lparr>idIdx = 1, lastOffset = 32,
     anchorLines = [[], [], [\<lparr>ID = ''A'', Kind = ''constant''\<rparr>], []],
     lineTypes = [1, 2, 1, 1],
     htmlLines =
       [[HTMLEscaped [], HTMLEscaped ''const '', HTMLEscaped [CHR ''('', NL]],
        [HTMLEscaped [TAB], Markup ''<span class=\"comment\">'',
         HTMLEscaped ''// A is first.'', Markup ''</span>'', HTMLEscaped [NL]],
        [HTMLEscaped [TAB], HTMLEscaped ''A '', HTMLEscaped ''= '',
         HTMLEscaped ''1'', HTMLEscaped [NL]],
        [HTMLEscaped [], HTMLEscaped '')'', HTMLEscaped []]]\<rparr>"

section \<open>Literal trimming: rewriteDecl\<close>

text \<open>\<open>fmt.Sprintf("%d", i)\<close>: the decimal digits of an integer.\<close>

definition digitChar :: "nat \<Rightarrow> char" where
  "digitChar d = ''0123456789'' ! d"

function decimal :: "nat \<Rightarrow> string" where
  "decimal n = (if n < 10 then [digitChar n] else decimal (n div 10) @ [digitChar (n mod 10)])"
  by pat_completeness auto
termination
  by (relation "measure id") auto

definition itoa :: "int \<Rightarrow> string" where
  "itoa i = (if i < 0 then CHR ''-'' # decimal (nat (- i)) else decimal (nat i))"

text \<open>\<open>addComment\<close>: a nil comment group is replaced by a new one, then the comment is
  appended to its list.\<close>

definition addComment :: "CommentGroup \<Rightarrow> pos \<Rightarrow> string \<Rightarrow> CommentGroup" where
  "addComment cg p text =
     (case cg of None \<Rightarrow> Some [AstComment p text] | Some l \<Rightarrow> Some (l @ [AstComment p text]))"

text \<open>
  \<open>rewriteLongValue\<close> changes the node in place and the comment group through the pointer
  \<open>pcg\<close>; the model returns both. The thresholds are Go \<open>int\<close>s. The quotation marks of a
  string literal are part of \<open>Value\<close>; \<open>CHR 0x60\<close> is the backquote.
\<close>

fun rewriteLongValue :: "int \<Rightarrow> int \<Rightarrow> node \<Rightarrow> CommentGroup \<Rightarrow> node \<times> CommentGroup" where
  "rewriteLongValue maxStringSize maxElements (BasicLit valuePos kind val) pcg =
     (if kind \<noteq> STRING then (BasicLit valuePos kind val, pcg)
      else (let size = int (length val) - 2 in
        if size \<le> maxStringSize then (BasicLit valuePos kind val, pcg)
        else (let pcg1 = addComment pcg valuePos
                    (''/* '' @ itoa size @ ''-byte string literal not displayed */'') in
          if length val = 0 then (BasicLit valuePos kind val, pcg1)
          else if hd val = CHR 0x60 then (BasicLit valuePos kind [CHR 0x60, CHR 0x60], pcg1)
          else (BasicLit valuePos kind [CHR 0x22, CHR 0x22], pcg1))))"
| "rewriteLongValue maxStringSize maxElements (CompositeLit typ lbrace elts) pcg =
     (if int (length elts) > maxElements
      then (CompositeLit typ lbrace [],
            addComment pcg lbrace (''/* '' @ itoa (int (length elts)) @ '' elements not displayed */''))
      else (CompositeLit typ lbrace elts, pcg))"
| "rewriteLongValue maxStringSize maxElements n pcg = (n, pcg)"

text \<open>The loop \<open>for _, val := range n.Values { v.rewriteLongValue(val, &n.Comment) }\<close>.\<close>

fun rewriteValues :: "int \<Rightarrow> int \<Rightarrow> node list \<Rightarrow> CommentGroup \<Rightarrow> node list \<times> CommentGroup" where
  "rewriteValues maxStringSize maxElements [] pcg = ([], pcg)"
| "rewriteValues maxStringSize maxElements (v # vs) pcg =
     (case rewriteLongValue maxStringSize maxElements v pcg of (v1, pcg1) \<Rightarrow>
        (case rewriteValues maxStringSize maxElements vs pcg1 of (vs1, pcg2) \<Rightarrow> (v1 # vs1, pcg2)))"

text \<open>
  \<open>ast.Walk(v, n)\<close> calls \<open>v.Visit(n)\<close>, which rewrites the values of a value spec and the
  tag of a field, and then walks the children that the node has after that call. The
  recursion is on the rewritten values, which are no larger than the values were; the
  next lemmas say so for the termination proof.
\<close>

lemma rewriteLongValue_size:
  "size (fst (rewriteLongValue mx me v c)) \<le> size v"
  by (cases "(mx, me, v, c)" rule: rewriteLongValue.cases) (auto simp: Let_def)

lemma rewriteValues_size:
  "x \<in> set (fst (rewriteValues mx me vs c)) \<Longrightarrow> \<exists>v \<in> set vs. size x \<le> size v"
proof (induction vs arbitrary: c)
  case Nil
  then show ?case by simp
next
  case (Cons v vs)
  obtain v1 c1 where a: "rewriteLongValue mx me v c = (v1, c1)" by force
  obtain vs1 c2 where b: "rewriteValues mx me vs c1 = (vs1, c2)" by force
  from Cons.prems a b have "x = v1 \<or> x \<in> set vs1" by simp
  then show ?case
  proof
    assume "x = v1"
    with a rewriteLongValue_size[of mx me v c] show ?thesis by simp
  next
    assume "x \<in> set vs1"
    with b Cons.IH[of c1] show ?thesis by auto
  qed
qed

lemma size_member: "x \<in> set xs \<Longrightarrow> size x \<le> size_list size xs"
  by (simp add: size_list_estimation')

lemma rewriteValues_size_list:
  "(vs1, c1) = rewriteValues mx me vs c \<Longrightarrow> x \<in> set vs1 \<Longrightarrow> size x \<le> size_list size vs"
proof -
  assume a: "(vs1, c1) = rewriteValues mx me vs c" and x: "x \<in> set vs1"
  from a have "vs1 = fst (rewriteValues mx me vs c)" by (metis fst_conv)
  with x rewriteValues_size[of x mx me vs c] obtain v where "v \<in> set vs" "size x \<le> size v"
    by auto
  with size_member[of v vs] show ?thesis by simp
qed

lemma rewriteLongValue_size_pair:
  "(v1, c1) = rewriteLongValue mx me v c \<Longrightarrow> size v1 \<le> size v"
  using rewriteLongValue_size[of mx me v c] by (metis fst_conv)

function rewriteNode :: "int \<Rightarrow> int \<Rightarrow> node \<Rightarrow> node" where
  "rewriteNode mx me (Ident name) = Ident name"
| "rewriteNode mx me (BasicLit valuePos kind val) = BasicLit valuePos kind val"
| "rewriteNode mx me (CompositeLit typ lbrace elts) =
     CompositeLit (map_option (rewriteNode mx me) typ) lbrace (map (rewriteNode mx me) elts)"
| "rewriteNode mx me (ValueSpec doc names typ vals cmt) =
     (case rewriteValues mx me vals cmt of (vals1, cmt1) \<Rightarrow>
        ValueSpec doc (map (rewriteNode mx me) names) (map_option (rewriteNode mx me) typ)
          (map (rewriteNode mx me) vals1) cmt1)"
| "rewriteNode mx me (Field doc names typ tag cmt) =
     (case tag of
        None \<Rightarrow> Field doc (map (rewriteNode mx me) names) (map_option (rewriteNode mx me) typ) None cmt
      | Some t \<Rightarrow>
          (case rewriteLongValue mx me t cmt of (t1, cmt1) \<Rightarrow>
             Field doc (map (rewriteNode mx me) names) (map_option (rewriteNode mx me) typ)
               (Some (rewriteNode mx me t1)) cmt1))"
| "rewriteNode mx me (Node kind children) = Node kind (map (rewriteNode mx me) children)"
  by pat_completeness auto
termination
proof (relation "measure (\<lambda>(mx, me, n). size n)", goal_cases)
  case 1
  show ?case by simp
next
  case (2 mx me ty lbrace elts x)
  then show ?case by (cases ty) auto
next
  case (3 mx me ty lbrace elts x)
  with size_member[of x elts] show ?case by simp
next
  case (4 mx me doc names ty vals cmt x y xa)
  with size_member[of xa names] show ?case by simp
next
  case (5 mx me doc names ty vals cmt x y xa)
  then show ?case by (cases ty) auto
next
  case (6 mx me doc names ty vals cmt x y xa)
  with rewriteValues_size_list[of x y mx me vals cmt xa] show ?case by simp
next
  case (7 mx me doc names ty tag cmt x)
  with size_member[of x names] show ?case by simp
next
  case (8 mx me doc names ty tag cmt x)
  then show ?case by (cases ty) auto
next
  case (9 mx me doc names ty tag cmt x2 x y xa)
  with size_member[of xa names] show ?case by simp
next
  case (10 mx me doc names ty tag cmt x2 x y xa)
  then show ?case by (cases ty) auto
next
  case (11 mx me doc names ty tag cmt x2 x y)
  with rewriteLongValue_size_pair[of x y mx me x2 cmt] show ?case by simp
next
  case (12 mx me kind children x)
  with size_member[of x children] show ?case by simp
qed

definition rewriteDecl :: "node \<Rightarrow> int \<Rightarrow> int \<Rightarrow> node" where
  "rewriteDecl n maxStringSize maxElements = rewriteNode maxStringSize maxElements n"

text \<open>
  The \<open>*ast.Ident\<close> nodes in the order in which \<open>ast.Inspect\<close> visits them (comment groups
  hold none). \<open>formatDeclHTML\<close> appends one entry to \<open>anchorPoints\<close> and one to
  \<open>anchorLinks\<close> for each of them.
\<close>

fun inspectIdents :: "node \<Rightarrow> node list" where
  "inspectIdents (Ident name) = [Ident name]"
| "inspectIdents (BasicLit valuePos kind val) = []"
| "inspectIdents (CompositeLit typ lbrace elts) =
     (case typ of None \<Rightarrow> [] | Some t \<Rightarrow> inspectIdents t) @ concat (map inspectIdents elts)"
| "inspectIdents (ValueSpec doc names typ vals cmt) =
     concat (map inspectIdents names) @ (case typ of None \<Rightarrow> [] | Some t \<Rightarrow> inspectIdents t)
       @ concat (map inspectIdents vals)"
| "inspectIdents (Field doc names typ tag cmt) =
     concat (map inspectIdents names) @ (case typ of None \<Rightarrow> [] | Some t \<Rightarrow> inspectIdents t)
       @ (case tag of None \<Rightarrow> [] | Some t \<Rightarrow> inspectIdents t)"
| "inspectIdents (Node kind children) = concat (map inspectIdents children)"

text \<open>The last loop of \<open>formatDeclHTML\<close>, for one line; \<open>isMethod\<close> says that the
  declaration is a \<open>*ast.FuncDecl\<close> with a receiver.\<close>

definition emitLine :: "bool \<Rightarrow> idKind list \<Rightarrow> HTML list \<Rightarrow> HTML list" where
  "emitLine isMethod iks hs =
     (let anchors = map AnchorHTML
            (filter (\<lambda>ik. \<not> (Kind ik = ''function'' \<or> Kind ik = ''type'') \<and> \<not> isMethod) iks)
      in anchors @ hs @ (if anchors \<noteq> [] then [Markup ''</span>''] else []))"

text \<open>
  \<open>formatDeclHTML\<close>. The maps of \<open>generateAnchorPoints\<close> and \<open>generateAnchorLinks\<close> are
  keyed by \<open>*ast.Ident\<close> pointers; a pointer is modelled by the position of its node in
  the traversal, and the two maps are parameters. The printer and the scanner of the Go
  library are parameters as well.
\<close>

definition formatDeclHTML ::
  "(node \<Rightarrow> string) \<Rightarrow> (string \<Rightarrow> scanned list) \<Rightarrow> (string \<Rightarrow> HTML option)
     \<Rightarrow> (nat \<Rightarrow> idKind) \<Rightarrow> (nat \<Rightarrow> string) \<Rightarrow> bool \<Rightarrow> node \<Rightarrow> HTML option" where
  "formatDeclHTML printer scan formatLine anchorPointsMap anchorLinksMap isMethod decl =
     (let ids = inspectIdents decl;
          anchorPoints = map anchorPointsMap [0..<length ids];
          anchorLinks = map anchorLinksMap [0..<length ids];
          decl1 = rewriteDecl decl 125 100;
          src = printer decl1;
          numLines = count_list src NL + 1
      in case scanDecl formatLine anchorPoints anchorLinks src (scan src) (initDecl numLines) of
           None \<Rightarrow> None
         | Some st \<Rightarrow>
             (let A = hoistAnchors (lineTypes st) (anchorLines st) in
              Some (HTMLConcat (concat (map (\<lambda>k. emitLine isMethod (A ! k) (htmlLines st ! k))
                                         [0..<length A])))))"

text \<open>Two declarations: \<^verbatim>\<open>var ( X = []T{a, ..., a}; Y = 1 )\<close> with 101 elements, and
  \<^verbatim>\<open>var x, y = "abcd", []T{a, b}\<close>.\<close>

definition bigDecl :: node where
  "bigDecl = Node ''GenDecl''
     [ValueSpec None [Ident ''X''] None
        [CompositeLit (Some (Node ''ArrayType'' [Ident ''T''])) 13 (replicate 101 (Ident ''a''))] None,
      ValueSpec None [Ident ''Y''] None [BasicLit 500 tokINT ''1''] None]"

definition litDecl :: node where
  "litDecl = Node ''GenDecl''
     [ValueSpec None [Ident ''x'', Ident ''y''] None
        [BasicLit 11 STRING [CHR 0x22, CHR ''a'', CHR ''b'', CHR ''c'', CHR ''d'', CHR 0x22],
         CompositeLit (Some (Node ''ArrayType'' [Ident ''T''])) 22 [Ident ''a'', Ident ''b'']] None]"

section \<open>Prose lines: formatLineHTML\<close>

subsection \<open>The regular expression matchRx\<close>

text \<open>
  \<open>matchRx\<close> is \<open>urlRx|rfcRx|qualIdentRx\<close>. \<open>FindStringIndex\<close> returns the leftmost
  match, and at that place the match that a backtracking search finds first: the first
  alternative that matches, each repetition as long as it can be. Each alternative is
  written as a function from the text at the place of the match to the length of the
  match. None of them needs to backtrack: whatever follows a repetition in these
  expressions either is optional or begins with a character that the repetition cannot
  take.

  \<open>urlRx\<close>: one of the protocols, then \<open>://\<close>, then \<open>hostPart\<close>
  \<open>[a-zA-Z0-9_@\-.\[\]:]+\<close>, then \<open>pathPart\<close>
  \<open>([.,:;?!]*[a-zA-Z0-9$'()*+&#=@~_/\-\[\]%])*\<close>.
\<close>

definition protos :: "string list" where
  "protos = [''https'', ''http'', ''sftps'', ''sftp'', ''ftps'', ''ftp'',
             ''file'', ''gopher'', ''mailto'', ''nntp'']"

definition matchProto :: "string \<Rightarrow> nat option" where
  "matchProto s =
     (case filter (\<lambda>p. prefix (p @ ''://'') s) protos of
        [] \<Rightarrow> None
      | p # _ \<Rightarrow> Some (length p + 3))"

definition hostChar :: "char \<Rightarrow> bool" where
  "hostChar c \<longleftrightarrow> isASCIILetter c \<or> isASCIIDigit c \<or> c \<in> set ''_@-.[]:''"

definition punctChar :: "char \<Rightarrow> bool" where
  "punctChar c \<longleftrightarrow> c \<in> set ''.,:;?!''"

definition pathChar :: "char \<Rightarrow> bool" where
  "pathChar c \<longleftrightarrow> isASCIILetter c \<or> isASCIIDigit c
     \<or> c \<in> set [CHR ''$'', CHR 0x27, CHR ''('', CHR '')'', CHR ''*'', CHR ''+'', CHR ''&'',
                 CHR ''#'', CHR ''='', CHR ''@'', CHR ''~'', CHR ''_'', CHR ''/'', CHR ''-'',
                 CHR ''['', CHR '']'', CHR ''%'']"

function pathLen :: "string \<Rightarrow> nat" where
  "pathLen s =
     (let p = length (takeWhile punctChar s) in
      if p < length s \<and> pathChar (s ! p) then p + 1 + pathLen (drop (p + 1) s) else 0)"
  by pat_completeness auto
termination
  by (relation "measure length") auto

definition matchURL :: "string \<Rightarrow> nat option" where
  "matchURL s =
     (case matchProto s of
        None \<Rightarrow> None
      | Some n \<Rightarrow>
          (let h = length (takeWhile hostChar (drop n s)) in
           if h = 0 then None else Some (n + h + pathLen (drop (n + h) s))))"

text \<open>\<open>rfcRx\<close>: \<open>RFC\s+(\d{3,5})(,?\s+[Ss]ection\s+(\d+(\.\d+)*))?\<close>; \<open>\s\<close> is one of tab,
  newline, form feed, carriage return and space, \<open>\d\<close> an ASCII digit.\<close>

definition rxSpace :: "char \<Rightarrow> bool" where
  "rxSpace c \<longleftrightarrow> c \<in> set [TAB, NL, CHR 0x0C, CHR 0x0D, CHR '' '']"

function dottedLen :: "string \<Rightarrow> nat" where
  "dottedLen s =
     (case s of
        [] \<Rightarrow> 0
      | c # t \<Rightarrow>
          (let d = length (takeWhile isASCIIDigit t) in
           if c = CHR ''.'' \<and> d > 0 then 1 + d + dottedLen (drop d t) else 0))"
  by pat_completeness auto
termination
  by (relation "measure length") auto

definition sectionLen :: "string \<Rightarrow> nat option" where
  "sectionLen s =
     (let c = (if prefix '','' s then 1 else 0);
          s1 = drop c s;
          w1 = length (takeWhile rxSpace s1);
          s2 = drop w1 s1;
          s3 = drop 7 s2;
          w2 = length (takeWhile rxSpace s3);
          s4 = drop w2 s3;
          d = length (takeWhile isASCIIDigit s4)
      in if w1 > 0 \<and> (prefix ''Section'' s2 \<or> prefix ''section'' s2) \<and> w2 > 0 \<and> d > 0
         then Some (c + w1 + 7 + w2 + d + dottedLen (drop d s4))
         else None)"

definition matchRFC :: "string \<Rightarrow> nat option" where
  "matchRFC s =
     (if prefix ''RFC'' s then
        (let w = length (takeWhile rxSpace (drop 3 s));
             d = min 5 (length (takeWhile isASCIIDigit (drop (3 + w) s)))
         in if w > 0 \<and> d \<ge> 3
            then Some (3 + w + d + (case sectionLen (drop (3 + w + d) s) of None \<Rightarrow> 0 | Some n \<Rightarrow> n))
            else None)
      else None)"

text \<open>\<open>qualIdentRx\<close>: \<open>identRx(\.identRx)*\<close> with \<open>identRx = [\pL_][\pL_0-9]*\<close>.\<close>

definition identStartLen :: "unicode \<Rightarrow> string \<Rightarrow> nat" where
  "identStartLen uni s =
     (if prefix ''_'' s then 1
      else (case runeAt uni s of (cl, w) \<Rightarrow> if cl = Letter then w else 0))"

definition identPartLen :: "unicode \<Rightarrow> string \<Rightarrow> nat" where
  "identPartLen uni s =
     (case s of [] \<Rightarrow> 0
      | c # _ \<Rightarrow> if isASCIIDigit c then 1 else identStartLen uni s)"

function identTailLen :: "unicode \<Rightarrow> string \<Rightarrow> nat" where
  "identTailLen uni s =
     (let w = identPartLen uni s in
      if 0 < w \<and> w \<le> length s then w + identTailLen uni (drop w s) else 0)"
  by pat_completeness auto
termination
  by (relation "measure (\<lambda>(uni, s). length s)") auto

definition identLen :: "unicode \<Rightarrow> string \<Rightarrow> nat" where
  "identLen uni s =
     (let w = identStartLen uni s in if w = 0 then 0 else w + identTailLen uni (drop w s))"

function qualTailLen :: "unicode \<Rightarrow> string \<Rightarrow> nat" where
  "qualTailLen uni s =
     (case s of
        [] \<Rightarrow> 0
      | c # t \<Rightarrow>
          (let n = identLen uni t in
           if c = CHR ''.'' \<and> n > 0 then 1 + n + qualTailLen uni (drop n t) else 0))"
  by pat_completeness auto
termination
  by (relation "measure (\<lambda>(uni, s). length s)") auto

definition matchQualIdent :: "unicode \<Rightarrow> string \<Rightarrow> nat option" where
  "matchQualIdent uni s =
     (let n = identLen uni s in if n = 0 then None else Some (n + qualTailLen uni (drop n s)))"

text \<open>The three alternatives in their order, and the search for the leftmost match.\<close>

definition matchAt :: "unicode \<Rightarrow> string \<Rightarrow> nat option" where
  "matchAt uni s =
     (case matchURL s of
        Some n \<Rightarrow> Some n
      | None \<Rightarrow> (case matchRFC s of Some n \<Rightarrow> Some n | None \<Rightarrow> matchQualIdent uni s))"

fun findFrom :: "unicode \<Rightarrow> nat \<Rightarrow> string \<Rightarrow> (nat \<times> nat) option" where
  "findFrom uni k [] = None"
| "findFrom uni k (c # s) =
     (case matchAt uni (c # s) of
        Some n \<Rightarrow> Some (k, k + n)
      | None \<Rightarrow> findFrom uni (k + 1) s)"

definition FindStringIndex :: "unicode \<Rightarrow> string \<Rightarrow> (nat \<times> nat) option" where
  "FindStringIndex uni s = findFrom uni 0 s"

subsection \<open>The loop of formatLineHTML\<close>

text \<open>The variables of the loop; \<open>rest\<close> is the variable \<open>line\<close>, the text that is left.\<close>

record lineState =
  rest :: string
  lastChar :: char
  numQuotes :: int
  htmls :: "HTML list"

text \<open>
  The URL case. \<open>cutClose\<close> is one of the two \<open>if\<close> statements (a closing bracket before
  the first opening one), \<open>balance\<close> one of the two loops with at most 10 rounds. They
  change \<open>m1\<close> and \<open>word\<close>; the slice \<open>line[m0:m1]\<close> panics when \<open>m1\<close> is less than
  \<open>m0\<close>, which is the result \<open>None\<close>.
\<close>

definition cutClose :: "char \<Rightarrow> char \<Rightarrow> string \<Rightarrow> nat \<Rightarrow> nat \<times> string \<Rightarrow> (nat \<times> string) option" where
  "cutClose close opn ln m0 mw =
     (case mw of (m1, word) \<Rightarrow>
        (let i = IndexByte word close in
         if i \<ge> 0 \<and> i < IndexByte word opn
         then map_option (\<lambda>w. (m0 + nat i, w)) (slice ln m0 (m0 + nat i))
         else Some (m1, word)))"

function balance ::
  "char \<Rightarrow> char \<Rightarrow> string \<Rightarrow> nat \<Rightarrow> nat \<Rightarrow> nat \<times> string \<Rightarrow> (nat \<times> string) option" where
  "balance opn close ln m0 i (m1, word) =
     (if count_list word opn \<noteq> count_list word close \<and> i < 10 then
        (let k = LastIndexAny2 (take m1 ln) opn close in
         if k < 0 then None
         else (case slice ln m0 (nat k) of
                 None \<Rightarrow> None
               | Some w \<Rightarrow> balance opn close ln m0 (i + 1) (nat k, w)))
      else Some (m1, word))"
  by pat_completeness auto
termination
  by (relation "measure (\<lambda>(opn, close, ln, m0, i, mw). 10 - i)") auto

definition trimURL :: "string \<Rightarrow> nat \<Rightarrow> nat \<Rightarrow> string \<Rightarrow> (nat \<times> string) option" where
  "trimURL ln m0 m1 word =
     (case cutClose (CHR '')'') (CHR ''('') ln m0 (m1, word) of
        None \<Rightarrow> None
      | Some a \<Rightarrow>
          (case cutClose (CHR '']'') (CHR ''['') ln m0 a of
             None \<Rightarrow> None
           | Some b \<Rightarrow>
               (case balance (CHR ''('') (CHR '')'') ln m0 0 b of
                  None \<Rightarrow> None
                | Some c \<Rightarrow> balance (CHR ''['') (CHR '']'') ln m0 0 c)))"

text \<open>The RFC case appends one link, or nothing when there are fewer than two fields.\<close>

definition rfcLink :: "unicode \<Rightarrow> string \<Rightarrow> HTML list" where
  "rfcLink uni word =
     (let rfcFields = rfcFieldsOf uni word in
      if length rfcFields \<ge> 4
      then [LinkHTML (''https://rfc-editor.org/rfc/rfc'' @ rfcFields ! 1 @ ''.html#section-'' @ rfcFields ! 3) word]
      else if length rfcFields \<ge> 2
      then [LinkHTML (''https://rfc-editor.org/rfc/rfc'' @ rfcFields ! 1 @ ''.html'') word]
      else [])"

definition validPrefix :: "char \<Rightarrow> bool" where
  "validPrefix c \<longleftrightarrow> c \<in> set [CHR 0x00, CHR '' '', TAB, CHR ''('', CHR '')'', CHR ''['', CHR '']'', CHR ''*'', NL]"

definition validSuffix :: "char \<Rightarrow> bool" where
  "validSuffix c \<longleftrightarrow> c \<in> set [CHR 0x00, CHR '' '', TAB, CHR ''('', CHR '')'', CHR ''['', CHR '']'',
     CHR '':'', CHR '';'', CHR '','', CHR ''.'', CHR 0x27, NL]"

definition rfcCase :: "string \<Rightarrow> bool" where
  "rfcCase word \<longleftrightarrow> prefix ''RFC'' word \<and> length word > 3 \<and> IsSpaceByte (word ! 3)"

text \<open>One round of the loop \<open>for len(line) > 0\<close>. \<open>idr\<close> says that the resolver is not
  nil.\<close>

definition lineStep :: "unicode \<Rightarrow> bool \<Rightarrow> bool \<Rightarrow> lineState \<Rightarrow> lineState option" where
  "lineStep uni disableHotlinking idr st =
     (let ln = rest st;
          m = (case FindStringIndex uni ln of None \<Rightarrow> (length ln, length ln) | Some m \<Rightarrow> m);
          m0 = fst m; m1 = snd m;
          st1 = (if m0 > 0
                 then st\<lparr>lastChar := ln ! (m0 - 1),
                         numQuotes := numQuotes st + countQuotes (take m0 ln),
                         htmls := htmls st @ [HTMLEscaped (take m0 ln)]\<rparr>
                 else st)
      in if m1 > m0 then
           (let word = take (m1 - m0) (drop m0 ln);
                nextChar = (if m1 < length ln then ln ! m1 else CHR 0x00);
                forbidLinking = (\<not> validPrefix (lastChar st1) \<or> \<not> validSuffix nextChar
                                  \<or> numQuotes st1 mod 2 \<noteq> 0)
            in if Contains word ''://'' then
                 (case trimURL ln m0 m1 word of
                    None \<Rightarrow> None
                  | Some (m1a, worda) \<Rightarrow>
                      Some (st1\<lparr>rest := drop m1a ln,
                                numQuotes := numQuotes st1 + countQuotes worda,
                                htmls := htmls st1 @ [LinkHTML worda worda]\<rparr>))
               else if rfcCase word then
                 Some (st1\<lparr>rest := drop m1 ln,
                           numQuotes := numQuotes st1 + countQuotes word,
                           htmls := htmls st1 @ rfcLink uni word\<rparr>)
               else if \<not> forbidLinking \<and> \<not> disableHotlinking \<and> idr then
                 Some (st1\<lparr>rest := drop m1 ln,
                           numQuotes := numQuotes st1 + countQuotes word,
                           htmls := htmls st1 @ [ToHTML word]\<rparr>)
               else
                 Some (st1\<lparr>rest := drop m1 ln,
                           numQuotes := numQuotes st1 + countQuotes word,
                           htmls := htmls st1 @ [HTMLEscaped word]\<rparr>))
         else Some (st1\<lparr>rest := drop m1 ln\<rparr>))"

text \<open>The loop. A round that leaves \<open>line\<close> as long as it was would be repeated for
  ever: then, and when a round panics, there is no result.\<close>

function formatLoop :: "unicode \<Rightarrow> bool \<Rightarrow> bool \<Rightarrow> lineState \<Rightarrow> HTML list option" where
  "formatLoop uni disableHotlinking idr st =
     (if length (rest st) > 0 then
        (case lineStep uni disableHotlinking idr st of
           None \<Rightarrow> None
         | Some st1 \<Rightarrow>
             if length (rest st1) < length (rest st)
             then formatLoop uni disableHotlinking idr st1
             else None)
      else Some (htmls st))"
  by pat_completeness auto
termination
  by (relation "measure (\<lambda>(uni, d, i, st). length (rest st))") auto

definition formatLineHTML :: "unicode \<Rightarrow> bool \<Rightarrow> bool \<Rightarrow> string \<Rightarrow> HTML option" where
  "formatLineHTML uni disableHotlinking idr ln =
     map_option HTMLConcat
       (formatLoop uni disableHotlinking idr
          \<lparr>rest = convertQuotes ln, lastChar = CHR 0x00, numQuotes = 0, htmls = []\<rparr>)"

text \<open>The recursive equations of the functions below are unfolded on demand only.\<close>

declare pathLen.simps [simp del]
declare dottedLen.simps [simp del]
declare identTailLen.simps [simp del]
declare qualTailLen.simps [simp del]
declare fieldsFrom.simps [simp del]
declare countQuotesFrom.simps [simp del]
declare balance.simps [simp del]
declare formatLoop.simps [simp del]
declare runes.simps [simp del]

subsection \<open>Notions for the theorems about formatLineHTML\<close>

text \<open>
  The bytes a match of \<open>qualIdentRx\<close> is made of: ASCII letters, digits, underscore, the
  dot, and the bytes of a multi-byte UTF-8 sequence.
\<close>

definition identByte :: "char \<Rightarrow> bool" where
  "identByte c \<longleftrightarrow> isASCIILetter c \<or> isASCIIDigit c \<or> c = CHR ''_'' \<or> c = CHR ''.'' \<or> 0x80 \<le> byte c"





text \<open>
  The bytes of a match of \<open>rfcRx\<close> as \<open>strings.FieldsFunc\<close> sees them: \<open>fieldByte\<close> is
  an ASCII letter, an ASCII digit or the dot, which stay in a field, and \<open>sepByte\<close> is any
  other ASCII byte, which ends a field.
\<close>

definition fieldByte :: "char \<Rightarrow> bool" where
  "fieldByte c \<longleftrightarrow> isASCIILetter c \<or> isASCIIDigit c \<or> c = CHR ''.''"

definition sepByte :: "char \<Rightarrow> bool" where
  "sepByte c \<longleftrightarrow> byte c < 0x80 \<and> \<not> fieldByte c"

section \<open>Theorems\<close>

subsection \<open>Strings\<close>

lemma Replace_same_aux: "new = old \<Longrightarrow> Replace s old new = s"
proof (induction s old new rule: Replace.induct)
  case (1 old new)
  show ?case by simp
next
  case (2 c s old new)
  show ?case
  proof (cases "old \<noteq> [] \<and> prefix old (c # s)")
    case True
    then obtain zs where zs: "c # s = old @ zs" by (auto simp: prefix_def)
    with True have d: "drop (length old - 1) s = zs"
      by (cases old) auto
    from True 2 have ih: "Replace (drop (length old - 1) s) old new = drop (length old - 1) s"
      by simp
    from True have "Replace (c # s) old new = new @ Replace (drop (length old - 1) s) old new"
      by simp
    also have "\<dots> = old @ zs" using ih d 2(3) by simp
    finally show ?thesis using zs by simp
  next
    case False
    with 2 show ?thesis by auto
  qed
qed

lemma Replace_same: "Replace s old old = s"
  by (rule Replace_same_aux) simp

subsection \<open>Anchor-ID validation\<close>

lemma matchAnyRune_iff: "matchAnyRune cl rs \<longleftrightarrow> (\<exists>r \<in> set rs. cl r)"
  by (induction rs) auto

text \<open>
  \<open>ValidateGoDottedExpr\<close> panics exactly on the strings with a rune that is not an
  underscore, a letter, a number or a dot, and \<open>SafeGoID\<close> panics on the same strings and
  otherwise returns its argument. There is no third outcome: no error value is returned.
\<close>

lemma ValidateGoDottedExpr_iff:
  "(ValidateGoDottedExpr uni s = Panics s \<longleftrightarrow> (\<exists>r \<in> set (runes s). badIDClass uni r))
   \<and> (ValidateGoDottedExpr uni s = Returns () \<longleftrightarrow> (\<forall>r \<in> set (runes s). \<not> badIDClass uni r))
   \<and> (SafeGoID uni s = Panics s \<longleftrightarrow> (\<exists>r \<in> set (runes s). badIDClass uni r))
   \<and> (SafeGoID uni s = Returns s \<longleftrightarrow> (\<forall>r \<in> set (runes s). \<not> badIDClass uni r))"
  by (auto simp: ValidateGoDottedExpr_def SafeGoID_def badIDRx_MatchString_def matchAnyRune_iff)

text \<open>
  C9. The string of \<open>x\<close> and the superscript two \<open>U+00B2\<close> (the bytes \<open>78 C2 B2\<close>) has a
  character that is neither a dot nor a character of an identifier: \<open>U+00B2\<close> is a number
  of category No, not a decimal digit. \<open>ValidateGoDottedExpr\<close> returns on it and \<open>SafeGoID\<close>
  returns it, because \<open>badIDRx\<close> lets every number of Unicode pass.
\<close>

theorem C9_number_rune_accepted:
  "runes [CHR ''x'', CHR 0xC2, CHR 0xB2] = [0x78, 0xB2]
   \<and> \<not> goIdentRune latin1Tables 0xB2 \<and> (0xB2::rune) \<noteq> 0x2E
   \<and> ValidateGoDottedExpr latin1Tables [CHR ''x'', CHR 0xC2, CHR 0xB2] = Returns ()
   \<and> SafeGoID latin1Tables [CHR ''x'', CHR 0xC2, CHR 0xB2]
       = Returns [CHR ''x'', CHR 0xC2, CHR 0xB2]"
proof -
  have r: "runes [CHR ''x'', CHR 0xC2, CHR 0xB2] = [0x78, 0xB2]"
    by (simp add: byte_def runes.simps contByte_def)
  have g: "\<not> goIdentRune latin1Tables 0xB2"
    by (simp add: goIdentRune_def classOf_def latin1Tables_def RuneError_def)
  have v: "ValidateGoDottedExpr latin1Tables [CHR ''x'', CHR 0xC2, CHR 0xB2] = Returns ()"
    by (simp add: ValidateGoDottedExpr_def badIDRx_MatchString_def r badIDClass_def classOf_def
        latin1Tables_def RuneError_def)
  from r g v show ?thesis by (simp add: SafeGoID_def)
qed

subsection \<open>Missing example code\<close>

text \<open>
  C8. \<open>codeString\<close> returns its own error value exactly when the example or its code is
  nil, and whenever \<open>codeString\<close> returns an error (this one or one of \<open>format.Node\<close>)
  the method \<open>codeHTML\<close> returns the fixed placeholder and does not fail.
\<close>

theorem C8_missing_code_placeholder:
  "(codeString formatNode ex = Inl PleaseIncludeAnExampleWithCode
      \<longleftrightarrow> (ex = None \<or> (\<exists>e. ex = Some e \<and> Code e = None)))
   \<and> ((\<exists>err. codeString formatNode ex = Inl err)
      \<longrightarrow> Renderer_codeHTML formatNode scan isOutput ex = Some errorPlaceholder)"
  by (auto simp: codeString_def Renderer_codeHTML_def split: option.splits sum.splits)

theorem C8_missing_code_witness:
  "codeString (\<lambda>n c. Inr ''x'') (Some \<lparr>Code = None, Play = None, Comments = []\<rparr>)
     = Inl PleaseIncludeAnExampleWithCode
   \<and> Renderer_codeHTML (\<lambda>n c. Inr ''x'') (\<lambda>s. []) (\<lambda>s. False)
       (Some \<lparr>Code = None, Play = None, Comments = []\<rparr>) = Some errorPlaceholder"
  using C8_missing_code_placeholder
    [of "\<lambda>n c. Inr ''x''" "Some \<lparr>Code = None, Play = None, Comments = []\<rparr>" "\<lambda>s. []" "\<lambda>s. False"]
  by (simp add: codeString_def)

subsection \<open>Example code: the output marker\<close>

lemma scanCode_extends:
  "scanCode indent isOutput src toks lo els oo = Some (all, oo')
   \<Longrightarrow> \<exists>ys. all = els @ ys \<and> ys \<noteq> []"
proof (induction toks arbitrary: lo els oo)
  case Nil
  then show ?case by (auto split: option.splits)
next
  case (Cons t ts)
  from Cons.prems obtain prev where prev: "slice src lo (offset t) = Some prev"
    by (auto split: option.splits)
  let ?els1 = "els @ [\<lparr>Text = Replace prev indent [NL], Comment = False\<rparr>]"
  show ?case
  proof (cases "tok t = EOF")
    case True
    with Cons.prems prev show ?thesis by (auto simp: Let_def)
  next
    case nE: False
    show ?thesis
    proof (cases "tok t = COMMENT")
      case True
      with Cons.prems prev nE have
        "scanCode indent isOutput src ts (offset t + length (Replace (lit t) indent [NL]))
           (?els1 @ [\<lparr>Text = Replace (lit t) indent [NL], Comment = True\<rparr>])
           (if isOutput (lit t) then int (length ?els1) else oo) = Some (all, oo')"
        by (simp add: Let_def)
      from Cons.IH[OF this] show ?thesis by auto
    next
      case nC: False
      show ?thesis
      proof (cases "tok t = STRING")
        case True
        with Cons.prems prev nE nC have
          "scanCode indent isOutput src ts (offset t + length (lit t))
             (?els1 @ [\<lparr>Text = lit t, Comment = False\<rparr>]) oo = Some (all, oo')"
          by (simp add: Let_def)
        from Cons.IH[OF this] show ?thesis by auto
      next
        case False
        with Cons.prems prev nE nC have
          "scanCode indent isOutput src ts (offset t) ?els1 oo = Some (all, oo')"
          by (simp add: Let_def)
        from Cons.IH[OF this] show ?thesis by auto
      qed
    qed
  qed
qed

lemma scanCode_no_marker:
  "scanCode indent isOutput src toks lo els oo = Some (all, oo')
   \<Longrightarrow> \<forall>t \<in> set toks. \<not> (tok t = COMMENT \<and> isOutput (lit t))
   \<Longrightarrow> oo' = oo"
proof (induction toks arbitrary: lo els oo)
  case Nil
  then show ?case by (auto split: option.splits)
next
  case (Cons t ts)
  from Cons.prems(1) obtain prev where prev: "slice src lo (offset t) = Some prev"
    by (auto split: option.splits)
  from Cons.prems(2) have rest: "\<forall>t \<in> set ts. \<not> (tok t = COMMENT \<and> isOutput (lit t))"
    and here: "\<not> (tok t = COMMENT \<and> isOutput (lit t))" by auto
  show ?case
    using Cons.prems(1) prev here Cons.IH[OF _ rest]
    by (auto simp: Let_def split: if_splits)
qed

lemma scanCode_marker:
  "scanCode indent isOutput src (pre @ c # post) lo els oo = Some (all, oo')
   \<Longrightarrow> \<forall>t \<in> set pre. tok t \<noteq> EOF
   \<Longrightarrow> tok c = COMMENT \<Longrightarrow> isOutput (lit c)
   \<Longrightarrow> \<forall>t \<in> set post. \<not> (tok t = COMMENT \<and> isOutput (lit t))
   \<Longrightarrow> oo' = int (length els + elementCount pre + 1)
       \<and> length els + elementCount pre + 1 < length all
       \<and> all ! (length els + elementCount pre + 1)
           = \<lparr>Text = Replace (lit c) indent [NL], Comment = True\<rparr>"
proof (induction pre arbitrary: lo els oo)
  case Nil
  from Nil.prems(1) obtain prev where prev: "slice src lo (offset c) = Some prev"
    by (auto split: option.splits)
  let ?els1 = "els @ [\<lparr>Text = Replace prev indent [NL], Comment = False\<rparr>]"
  let ?m = "\<lparr>Text = Replace (lit c) indent [NL], Comment = True\<rparr>"
  from Nil.prems prev have run:
    "scanCode indent isOutput src post (offset c + length (Replace (lit c) indent [NL]))
       (?els1 @ [?m]) (int (length ?els1)) = Some (all, oo')"
    by (simp add: Let_def)
  from scanCode_no_marker[OF run Nil.prems(5)] have "oo' = int (length ?els1)" .
  moreover from scanCode_extends[OF run] obtain ys where "all = (?els1 @ [?m]) @ ys" by blast
  ultimately show ?case by (simp add: nth_append)
next
  case (Cons t pre)
  from Cons.prems(1) obtain prev where prev: "slice src lo (offset t) = Some prev"
    by (auto split: option.splits)
  from Cons.prems(2) have nE: "tok t \<noteq> EOF" and pre: "\<forall>t \<in> set pre. tok t \<noteq> EOF" by auto
  let ?els1 = "els @ [\<lparr>Text = Replace prev indent [NL], Comment = False\<rparr>]"
  show ?case
  proof (cases "tok t = COMMENT")
    case True
    with Cons.prems(1) prev nE have
      "scanCode indent isOutput src (pre @ c # post)
         (offset t + length (Replace (lit t) indent [NL]))
         (?els1 @ [\<lparr>Text = Replace (lit t) indent [NL], Comment = True\<rparr>])
         (if isOutput (lit t) then int (length ?els1) else oo) = Some (all, oo')"
      by (simp add: Let_def)
    from Cons.IH[OF this pre Cons.prems(3,4,5)] True show ?thesis by simp
  next
    case nC: False
    show ?thesis
    proof (cases "tok t = STRING")
      case True
      with Cons.prems(1) prev nE nC have
        "scanCode indent isOutput src (pre @ c # post) (offset t + length (lit t))
           (?els1 @ [\<lparr>Text = lit t, Comment = False\<rparr>]) oo = Some (all, oo')"
        by (simp add: Let_def)
      from Cons.IH[OF this pre Cons.prems(3,4,5)] True show ?thesis by simp
    next
      case False
      with Cons.prems(1) prev nE nC have
        "scanCode indent isOutput src (pre @ c # post) (offset t) ?els1 oo = Some (all, oo')"
        by (simp add: Let_def)
      from Cons.IH[OF this pre Cons.prems(3,4,5)] False nC show ?thesis by simp
    qed
  qed
qed

text \<open>
  C10. When several comments match the output marker, the cut is at the last of them:
  if the tokens are \<open>pre @ c # post\<close>, where \<open>c\<close> is a matching comment and no comment of
  \<open>post\<close> matches, then the element of \<open>c\<close> has the index \<open>elementCount pre + 1\<close> in the
  list \<open>all\<close> of the elements of the whole scan, and the result is the list of the elements
  before that index (the earlier marker comments and the code between them included), with
  the trailing newlines of its last element trimmed.
\<close>

theorem C10_cut_at_last_marker:
  assumes "trimBraces src = (body, indent)"
    and "scan body = pre @ c # post"
    and "\<forall>t \<in> set pre. tok t \<noteq> EOF"
    and "tok c = COMMENT" and "isOutput (lit c)"
    and "\<forall>t \<in> set post. \<not> (tok t = COMMENT \<and> isOutput (lit t))"
    and "scanCode (NL # indent) isOutput body (scan body) 0 [] (- 1) = Some (all, oo)"
  shows "elementCount pre + 1 < length all
    \<and> all ! (elementCount pre + 1) = \<lparr>Text = Replace (lit c) (NL # indent) [NL], Comment = True\<rparr>
    \<and> codeElements scan isOutput src = Some (trimLast (take (elementCount pre + 1) all))"
proof -
  from assms(7) have run:
    "scanCode (NL # indent) isOutput body (pre @ c # post) 0 [] (- 1) = Some (all, oo)"
    by (simp add: assms(2))
  from scanCode_marker[OF run assms(3,4,5,6)]
  have oo: "oo = int (elementCount pre + 1)"
    and rest: "elementCount pre + 1 < length all"
      "all ! (elementCount pre + 1) = \<lparr>Text = Replace (lit c) (NL # indent) [NL], Comment = True\<rparr>"
    by simp_all
  have "codeElements scan isOutput src = Some (cutOutput (all, oo))"
    using assms(1,7) by (simp add: codeElements_def)
  moreover have "cutOutput (all, oo) = trimLast (take (elementCount pre + 1) all)"
    unfolding oo cutOutput_def by (simp del: of_nat_add of_nat_Suc)
  ultimately show ?thesis using rest by simp
qed

theorem C10_cut_at_last_marker_witness:
  "codeElements exScan (prefix ''// Output:'') ''x\<newline>// Output: 1\<newline>y\<newline>// Output: 2\<newline>''
     = Some [\<lparr>Text = [], Comment = False\<rparr>, \<lparr>Text = ''x'', Comment = False\<rparr>,
   \<lparr>Text = [NL], Comment = False\<rparr>,
   \<lparr>Text = ''// Output: 1'', Comment = True\<rparr>,
   \<lparr>Text = [NL], Comment = False\<rparr>, \<lparr>Text = ''y'', Comment = False\<rparr>,
   \<lparr>Text = [], Comment = False\<rparr>]"
proof -
  let ?src = "''x\<newline>// Output: 1\<newline>y\<newline>// Output: 2\<newline>''"
  let ?all = "[\<lparr>Text = [], Comment = False\<rparr>, \<lparr>Text = ''x'', Comment = False\<rparr>,
   \<lparr>Text = [NL], Comment = False\<rparr>,
   \<lparr>Text = ''// Output: 1'', Comment = True\<rparr>,
   \<lparr>Text = [NL], Comment = False\<rparr>, \<lparr>Text = ''y'', Comment = False\<rparr>,
   \<lparr>Text = [NL], Comment = False\<rparr>,
   \<lparr>Text = ''// Output: 2'', Comment = True\<rparr>,
   \<lparr>Text = [NL], Comment = False\<rparr>]"
  have tb: "trimBraces ?src = (?src, [])" by (simp add: trimBraces_def)
  have sc: "exScan ?src = take 5 (exScan ?src) @ (exScan ?src ! 5) # []"
    by (simp add: exScan_def)
  have run: "scanCode [NL] (prefix ''// Output:'') ?src (exScan ?src) 0 [] (- 1) = Some (?all, 7)"
    by (simp add: exScan_def slice_def Let_def Replace_same)
  have "codeElements exScan (prefix ''// Output:'') ?src
      = Some (trimLast (take (elementCount (take 5 (exScan ?src)) + 1) ?all))"
    using C10_cut_at_last_marker[where scan = exScan and src = ?src and body = ?src
        and indent = "[]" and pre = "take 5 (exScan ?src)" and c = "exScan ?src ! 5"
        and post = "[]" and isOutput = "prefix ''// Output:''" and all = ?all and oo = 7]
      tb sc run
    by (simp add: exScan_def)
  then show ?thesis
    by (simp add: exScan_def trimLast_def TrimRightNL_def)
qed

subsection \<open>Example code: the text after a comment of several lines\<close>

text \<open>
  C7. The block \<open>cmtSrc\<close> has no output marker. Its comment loses the two tabs of the
  indentation, and \<open>lastOffset\<close> is then advanced by the length of the shortened literal:
  it stops two bytes before the end of the comment in the source, and the next element
  begins with the end of the comment once more. The elements spell
  \<open>/*\<newline>a\<newline>*/*/\<newline>x\<close>; the code without its braces and indentation is \<open>/*\<newline>a\<newline>*/\<newline>x\<close>.
\<close>

theorem C7_comment_tail_repeated:
  assumes "\<not> isOutput cmtLit"
  shows "trimBraces cmtSrc = (cmtBody, [TAB])
     \<and> tokensOK cmtBody 0 (cmtScan cmtBody)
     \<and> scanCode [NL, TAB] isOutput cmtBody (cmtScan cmtBody) 0 [] (- 1)
         = Some ([\<lparr>Text = [], Comment = False\<rparr>,
                  \<lparr>Text = ''/*\<newline>a\<newline>*/'', Comment = True\<rparr>,
                  \<lparr>Text = ''*/\<newline>'', Comment = False\<rparr>,
                  \<lparr>Text = ''x'', Comment = False\<rparr>,
                  \<lparr>Text = [], Comment = False\<rparr>], - 1)
     \<and> codeElements cmtScan isOutput cmtSrc
         = Some [\<lparr>Text = [], Comment = False\<rparr>,
                 \<lparr>Text = ''/*\<newline>a\<newline>*/'', Comment = True\<rparr>,
                 \<lparr>Text = ''*/\<newline>'', Comment = False\<rparr>,
                 \<lparr>Text = ''x'', Comment = False\<rparr>,
                 \<lparr>Text = [], Comment = False\<rparr>]
     \<and> concat (map Text [\<lparr>Text = [], Comment = False\<rparr>,
                 \<lparr>Text = ''/*\<newline>a\<newline>*/'', Comment = True\<rparr>,
                 \<lparr>Text = ''*/\<newline>'', Comment = False\<rparr>,
                 \<lparr>Text = ''x'', Comment = False\<rparr>,
                 \<lparr>Text = [], Comment = False\<rparr>]) = ''/*\<newline>a\<newline>*/*/\<newline>x''
     \<and> Replace cmtBody [NL, TAB] [NL] = ''/*\<newline>a\<newline>*/\<newline>x''"
proof -
  have tb: "trimBraces cmtSrc = (cmtBody, [TAB])"
    by (simp add: trimBraces_def cmtSrc_def cmtBody_def cmtLit_def TrimNL_def TrimRightNL_def
        indentLength_def Let_def suffix_to_prefix)
  have ok: "tokensOK cmtBody 0 (cmtScan cmtBody)"
    by (simp add: cmtScan_def cmtBody_def cmtLit_def slice_def)
  have r: "Replace cmtLit [NL, TAB] [NL] = ''/*\<newline>a\<newline>*/''"
    by (simp add: cmtLit_def)
  have run: "scanCode [NL, TAB] isOutput cmtBody (cmtScan cmtBody) 0 [] (- 1)
         = Some ([\<lparr>Text = [], Comment = False\<rparr>,
                  \<lparr>Text = ''/*\<newline>a\<newline>*/'', Comment = True\<rparr>,
                  \<lparr>Text = ''*/\<newline>'', Comment = False\<rparr>,
                  \<lparr>Text = ''x'', Comment = False\<rparr>,
                  \<lparr>Text = [], Comment = False\<rparr>], - 1)"
    using assms by (simp add: cmtScan_def r Let_def slice_def) (simp add: cmtBody_def cmtLit_def)
  have ce: "codeElements cmtScan isOutput cmtSrc
         = Some [\<lparr>Text = [], Comment = False\<rparr>,
                 \<lparr>Text = ''/*\<newline>a\<newline>*/'', Comment = True\<rparr>,
                 \<lparr>Text = ''*/\<newline>'', Comment = False\<rparr>,
                 \<lparr>Text = ''x'', Comment = False\<rparr>,
                 \<lparr>Text = [], Comment = False\<rparr>]"
    by (simp add: codeElements_def tb run cutOutput_def trimLast_def TrimRightNL_def)
  have un: "Replace cmtBody [NL, TAB] [NL] = ''/*\<newline>a\<newline>*/\<newline>x''"
    by (simp add: cmtBody_def cmtLit_def)
  from tb ok run ce un show ?thesis by simp
qed

theorem C7_comment_tail_repeated_witness:
  "\<not> prefix ''// Output:'' cmtLit
   \<and> codeElements cmtScan (prefix ''// Output:'') cmtSrc
         = Some [\<lparr>Text = [], Comment = False\<rparr>,
                 \<lparr>Text = ''/*\<newline>a\<newline>*/'', Comment = True\<rparr>,
                 \<lparr>Text = ''*/\<newline>'', Comment = False\<rparr>,
                 \<lparr>Text = ''x'', Comment = False\<rparr>,
                 \<lparr>Text = [], Comment = False\<rparr>]"
proof -
  have n: "\<not> prefix ''// Output:'' cmtLit" by (simp add: cmtLit_def)
  from C7_comment_tail_repeated[of "prefix ''// Output:''", OF n] n show ?thesis by blast
qed

subsection \<open>The anchor-hoist pass\<close>

lemma markLines_facts:
  "markLines tt ln c T = Some T' \<Longrightarrow>
     length T' = length T \<and> ln < length T
     \<and> (\<forall>k < length T. odd (T ! k) \<longrightarrow> odd (T' ! k))
     \<and> (tt = codeType \<longrightarrow> odd (T' ! ln))"
proof (induction c arbitrary: T)
  case 0
  then show ?case
    by (auto simp: codeType_def nth_list_update even_or_iff split: if_splits)
next
  case (Suc c)
  let ?T1 = "T[ln + Suc c := T ! (ln + Suc c) OR tt]"
  from Suc.prems have r: "markLines tt ln c ?T1 = Some T'" and b: "ln + Suc c < length T"
    by (auto split: if_splits)
  from Suc.IH[OF r] have l: "length T' = length T" and ln: "ln < length T"
    and o: "\<forall>k < length T. odd (?T1 ! k) \<longrightarrow> odd (T' ! k)"
    and c: "tt = codeType \<longrightarrow> odd (T' ! ln)" by auto
  have "odd (T ! k) \<Longrightarrow> odd (?T1 ! k)" if "k < length T" for k
    using that by (cases "k = ln + Suc c") (auto simp: even_or_iff)
  with o have "\<forall>k < length T. odd (T ! k) \<longrightarrow> odd (T' ! k)" by blast
  with l ln c show ?case by blast
qed

lemma anchoredCode_step:
  assumes inv: "anchoredCode st"
    and T: "length T = length (lineTypes st)"
      "\<forall>k < length T. odd (lineTypes st ! k) \<longrightarrow> odd (T ! k)"
    and A: "length A = length (anchorLines st)"
      "\<forall>k < length A. A ! k \<noteq> [] \<longrightarrow> anchorLines st ! k \<noteq> [] \<or> odd (T ! k)"
  shows "anchoredCode (st\<lparr>idIdx := a, lastOffset := b, anchorLines := A, lineTypes := T, htmlLines := H\<rparr>)"
  using assms by (auto simp: anchoredCode_def list_all_iff)

lemma scanDecl_anchoredCode:
  "scanDecl formatLine anchorPoints anchorLinks src toks st = Some st'
   \<Longrightarrow> anchoredCode st
   \<Longrightarrow> anchoredCode st' \<and> length (anchorLines st') = length (anchorLines st)"
proof (induction toks arbitrary: st)
  case Nil
  then show ?case
    by (auto simp: anchoredCode_def Let_def split: option.splits)
next
  case (Cons t ts)
  from Cons.prems(1) obtain prev where prev: "slice src (lastOffset st) (offset t) = Some prev"
    by (auto split: option.splits)
  from Cons.prems(1) prev obtain H where
    H: "addPrevLines (int (line t - 1) - int (length (SplitAfterNL prev)) + 1)
          (SplitAfterNL prev) (htmlLines st) = Some H"
    by (auto simp: Let_def split: option.splits)
  let ?c = "count_list (TrimSuffixNL (lit t)) NL"
  let ?ln = "line t - 1"
  show ?case
  proof (cases "tok t = EOF")
    case True
    with Cons.prems prev H show ?thesis by (auto simp: anchoredCode_def Let_def)
  next
    case nE: False
    show ?thesis
    proof (cases "tok t = COMMENT")
      case True
      with Cons.prems(1) prev H nE obtain h T where
        m: "markLines commentType ?ln ?c (lineTypes st) = Some T"
        and r: "scanDecl formatLine anchorPoints anchorLinks src ts
                  (st\<lparr>lastOffset := offset t + length (lit t), lineTypes := T,
                      htmlLines := H[?ln := H ! ?ln @
                        [Markup ''<span class=\"comment\">'', h, Markup ''</span>'']]\<rparr>) = Some st'"
        by (auto simp: Let_def split: option.splits if_splits)
      from markLines_facts[OF m] Cons.prems(2) have
        "anchoredCode (st\<lparr>lastOffset := offset t + length (lit t), lineTypes := T,
                      htmlLines := H[?ln := H ! ?ln @
                        [Markup ''<span class=\"comment\">'', h, Markup ''</span>'']]\<rparr>)"
        by (auto simp: anchoredCode_def list_all_iff)
      from Cons.IH[OF r this] show ?thesis by simp
    next
      case nC: False
      show ?thesis
      proof (cases "tok t = IDENT")
        case True
        let ?pt = "idIdx st < length anchorPoints \<and> ID (anchorPoints ! idIdx st) \<noteq> []"
        let ?lk = "idIdx st < length anchorLinks \<and> anchorLinks ! idIdx st \<noteq> []"
        let ?st1 = "\<lambda>T. st\<lparr>idIdx := idIdx st + 1,
                       lastOffset := (if ?lk then offset t + length (lit t) else offset t),
                       anchorLines :=
                         (if ?pt then (anchorLines st)[?ln := anchorLines st ! ?ln @ [anchorPoints ! idIdx st]]
                          else anchorLines st),
                       lineTypes := T,
                       htmlLines := (if ?lk then H[?ln := H ! ?ln @ [LinkHTML (anchorLinks ! idIdx st) (lit t)]]
                          else H)\<rparr>"
        from True Cons.prems(1) prev H nE nC obtain T where
          m: "markLines codeType ?ln ?c (lineTypes st) = Some T"
          and r: "scanDecl formatLine anchorPoints anchorLinks src ts (?st1 T) = Some st'"
          by (auto simp: Let_def split: option.splits if_splits)
        from markLines_facts[OF m] have T: "length T = length (lineTypes st)"
          "\<forall>k < length (lineTypes st). odd (lineTypes st ! k) \<longrightarrow> odd (T ! k)"
          "odd (T ! ?ln)" "?ln < length (lineTypes st)" by auto
        from Cons.prems(2) T have "anchoredCode (?st1 T)"
          by (auto simp: anchoredCode_def list_all_iff nth_list_update)
        from Cons.IH[OF r this] show ?thesis by simp
      next
        case False
        with Cons.prems(1) prev H nE nC obtain T where
          m: "markLines codeType ?ln ?c (lineTypes st) = Some T"
          and r: "scanDecl formatLine anchorPoints anchorLinks src ts
                    (st\<lparr>lastOffset := offset t, lineTypes := T, htmlLines := H\<rparr>) = Some st'"
          by (auto simp: Let_def split: option.splits if_splits)
        from markLines_facts[OF m] Cons.prems(2) have
          "anchoredCode (st\<lparr>lastOffset := offset t, lineTypes := T, htmlLines := H\<rparr>)"
          by (auto simp: anchoredCode_def list_all_iff)
        from Cons.IH[OF r this] show ?thesis by simp
      qed
    qed
  qed
qed

lemma runStart_le: "runStart T i \<le> i"
  by (induction i) auto

lemma runStart_run: "runStart T i \<le> k \<Longrightarrow> k < i \<Longrightarrow> T ! k = commentType"
proof (induction i)
  case 0
  then show ?case by simp
next
  case (Suc i)
  show ?case
  proof (cases "T ! i = commentType")
    case True
    with Suc show ?thesis by (cases "k = i") auto
  next
    case False
    with Suc.prems show ?thesis by simp
  qed
qed

lemma runStart_maximal: "runStart T i = 0 \<or> T ! (runStart T i - 1) \<noteq> commentType"
  by (induction i) auto

lemma runStart_fix: "i = 0 \<or> T ! (i - 1) \<noteq> commentType \<Longrightarrow> runStart T i = i"
  by (cases i) auto

lemma hoistDest_le: "hoistDest T A i e \<le> e"
  by (simp add: hoistDest_def runStart_le)

lemma hoistDest_Suc:
  "hoistDest T A (Suc i) e =
     (if e = i \<and> (Suc i = length A \<or> A ! Suc i = []) then runStart T i else hoistDest T A i e)"
  by (auto simp: hoistDest_def less_Suc_eq)

lemma hoistDest_comment:
  assumes "hoistDest T A i e \<noteq> e"
  shows "T ! hoistDest T A i e = commentType \<and> hoistDest T A i e = runStart T e"
proof -
  from assms have d: "hoistDest T A i e = runStart T e"
    by (auto simp: hoistDest_def split: if_splits)
  with assms hoistDest_le[of T A i e] have "runStart T e < e" by simp
  from runStart_run[OF le_refl this] d show ?thesis by simp
qed

text \<open>No anchored line is sent to a comment-only line below another line's start.\<close>

lemma no_dest_in_run:
  assumes inv0: "\<forall>k < length A. A ! k \<noteq> [] \<longrightarrow> T ! k \<noteq> commentType"
    and e: "e < length A" "A ! e \<noteq> []" and i: "i < length A"
    and d: "hoistDest T A i e = k" and k: "runStart T i \<le> k" "k < i"
  shows False
proof -
  from k runStart_run have Tk: "T ! k = commentType" by blast
  show False
  proof (cases "hoistDest T A i e = e")
    case True
    with d e inv0 Tk show False by auto
  next
    case False
    then have lt: "e < i" by (auto simp: hoistDest_def split: if_splits)
    from hoistDest_le[of T A i e] d have "k \<le> e" by simp
    with k(1) lt runStart_run[of T i e] have "T ! e = commentType" by simp
    with e inv0 show False by auto
  qed
qed

lemma hoistInv_later:
  assumes J: "hoistInv T A i B" and k: "i \<le> k" "k < length A"
  shows "B ! k = A ! k"
proof (cases "A ! k = []")
  case False
  have "hoistDest T A i k = k" using k by (simp add: hoistDest_def)
  with J k False show ?thesis unfolding hoistInv_def by blast
next
  case True
  have "\<forall>e < length A. A ! e \<noteq> [] \<longrightarrow> hoistDest T A i e \<noteq> k"
  proof (intro allI impI)
    fix e assume e: "e < length A" "A ! e \<noteq> []"
    show "hoistDest T A i e \<noteq> k"
    proof
      assume d: "hoistDest T A i e = k"
      show False
      proof (cases "e < i")
        case True
        with hoistDest_le[of T A i e] d k show False by (auto simp: hoistDest_def split: if_splits)
      next
        case False
        with d have "e = k" by (simp add: hoistDest_def)
        with e True show False by simp
      qed
    qed
  qed
  with J k True show ?thesis unfolding hoistInv_def by simp
qed

lemma hoistInv_keep:
  assumes J: "hoistInv T A i B" and i: "i < length A"
    and ne: "\<not> (Suc i = length B \<or> B ! Suc i = [])"
  shows "hoistInv T A (Suc i) B"
proof -
  from J have len: "length B = length A" by (simp add: hoistInv_def)
  from ne len i have "Suc i < length A" by simp
  with ne len hoistInv_later[OF J, of "Suc i"] have "\<not> (Suc i = length A \<or> A ! Suc i = [])"
    by simp
  then have "hoistDest T A (Suc i) e = hoistDest T A i e" for e
    by (simp add: hoistDest_Suc)
  with J show ?thesis by (simp add: hoistInv_def)
qed

lemma hoistInv_swap:
  assumes inv0: "\<forall>k < length A. A ! k \<noteq> [] \<longrightarrow> T ! k \<noteq> commentType"
    and J: "hoistInv T A i B" and i: "i < length A"
    and ne: "Suc i = length B \<or> B ! Suc i = []"
  shows "hoistInv T A (Suc i) (B[i := B ! runStart T i, runStart T i := B ! i])"
proof -
  let ?j = "runStart T i"
  from J have len: "length B = length A" by (simp add: hoistInv_def)
  have neA: "Suc i = length A \<or> A ! Suc i = []"
  proof (cases "Suc i = length A")
    case False
    with i have "Suc i < length A" by simp
    with ne len hoistInv_later[OF J, of "Suc i"] False show ?thesis by simp
  qed simp
  have D: "hoistDest T A (Suc i) e = (if e = i then ?j else hoistDest T A i e)" for e
    using neA by (simp add: hoistDest_Suc)
  have Bi: "B ! i = A ! i" using hoistInv_later[OF J le_refl i] .
  show ?thesis
  proof (cases "?j = i")
    case True
    then have "B[i := B ! ?j, ?j := B ! i] = B" by simp
    moreover have "hoistDest T A (Suc i) e = hoistDest T A i e" for e
    proof (cases "e = i")
      case e: True
      have "hoistDest T A i i = i" by (simp add: hoistDest_def)
      with D[of e] e True show ?thesis by simp
    next
      case False
      with D[of e] show ?thesis by simp
    qed
    ultimately show ?thesis using J by (simp add: hoistInv_def)
  next
    case False
    with runStart_le[of T i] have jlt: "?j < i" by simp
    have nodest: "hoistDest T A i e \<noteq> ?j" if "e < length A" "A ! e \<noteq> []" for e
      using no_dest_in_run[OF inv0 that i _ le_refl jlt] by blast
    from jlt i have jn: "?j < length A" by simp
    from J jn nodest have Bj: "B ! ?j = []" unfolding hoistInv_def by blast
    let ?B = "B[i := B ! ?j, ?j := B ! i]"
    have B': "?B ! k = (if k = ?j then A ! i else if k = i then [] else B ! k)"
      if "k < length A" for k
      using that len i jn Bi Bj False by (auto simp: nth_list_update)
    have "(\<forall>e < length A. A ! e \<noteq> [] \<and> hoistDest T A (Suc i) e = k \<longrightarrow> ?B ! k = A ! e)
        \<and> ((\<forall>e < length A. A ! e \<noteq> [] \<longrightarrow> hoistDest T A (Suc i) e \<noteq> k) \<longrightarrow> ?B ! k = [])"
      if k: "k < length A" for k
    proof (intro conjI allI impI)
      fix e assume e: "e < length A" and a: "A ! e \<noteq> [] \<and> hoistDest T A (Suc i) e = k"
      show "?B ! k = A ! e"
      proof (cases "e = i")
        case True
        with a D[of e] have "k = ?j" by simp
        with True B'[OF k] show ?thesis by simp
      next
        case ne: False
        with a D[of e] have d: "hoistDest T A i e = k" by simp
        with nodest[OF e] a have kj: "k \<noteq> ?j" by blast
        have ki: "k \<noteq> i"
        proof
          assume "k = i"
          with d hoistDest_le[of T A i e] ne have "i < e" by simp
          then have "hoistDest T A i e = e" by (simp add: hoistDest_def)
          with d \<open>k = i\<close> ne show False by simp
        qed
        from J k e a d have "B ! k = A ! e" unfolding hoistInv_def by blast
        with B'[OF k] kj ki show ?thesis by simp
      qed
    next
      assume none: "\<forall>e < length A. A ! e \<noteq> [] \<longrightarrow> hoistDest T A (Suc i) e \<noteq> k"
      show "?B ! k = []"
      proof (cases "k = ?j")
        case True
        with none i D[of i] have "A ! i = []" by auto
        with True B'[OF k] show ?thesis by simp
      next
        case kj: False
        show ?thesis
        proof (cases "k = i")
          case True
          with B'[OF k] kj show ?thesis by simp
        next
          case ki: False
          have "\<forall>e < length A. A ! e \<noteq> [] \<longrightarrow> hoistDest T A i e \<noteq> k"
          proof (intro allI impI)
            fix e assume e: "e < length A" "A ! e \<noteq> []"
            show "hoistDest T A i e \<noteq> k"
            proof (cases "e = i")
              case True
              then have "hoistDest T A i e = i" by (simp add: hoistDest_def)
              with ki show ?thesis by simp
            next
              case False
              from none e have "hoistDest T A (Suc i) e \<noteq> k" by blast
              with False D[of e] show ?thesis by simp
            qed
          qed
          with J k have "B ! k = []" unfolding hoistInv_def by blast
          with B'[OF k] kj ki show ?thesis by simp
        qed
      qed
    qed
    with len show ?thesis by (simp add: hoistInv_def)
  qed
qed

lemma hoistFrom_inv:
  assumes inv0: "\<forall>k < length A. A ! k \<noteq> [] \<longrightarrow> T ! k \<noteq> commentType"
  shows "hoistInv T A i B \<Longrightarrow> i \<le> length A
    \<Longrightarrow> hoistInv T A (length A) (hoistFrom T i B)"
proof (induction "length A - i" arbitrary: i B)
  case 0
  then have len: "length B = length A" and i: "i = length A" by (simp_all add: hoistInv_def)
  then have "hoistFrom T i B = B" by simp
  with 0 i show ?case by simp
next
  case (Suc m)
  from Suc.prems have len: "length B = length A" by (simp add: hoistInv_def)
  from Suc.hyps(2) have i: "i < length A" by simp
  from Suc.hyps(2) have m: "m = length A - Suc i" by simp
  show ?case
  proof (cases "Suc i = length B \<or> B ! Suc i = []")
    case True
    from hoistInv_swap[OF inv0 Suc.prems(1) i True]
    have "hoistInv T A (Suc i) (B[i := B ! runStart T i, runStart T i := B ! i])" .
    from Suc.hyps(1)[OF m this] i
    have "hoistInv T A (length A)
            (hoistFrom T (Suc i) (B[i := B ! runStart T i, runStart T i := B ! i]))" by simp
    moreover have "hoistFrom T i B
        = hoistFrom T (Suc i) (B[i := B ! runStart T i, runStart T i := B ! i])"
      using True i len by (subst hoistFrom.simps) (simp add: Let_def)
    ultimately show ?thesis by simp
  next
    case False
    from hoistInv_keep[OF Suc.prems(1) i False] have "hoistInv T A (Suc i) B" .
    from Suc.hyps(1)[OF m this] i
    have "hoistInv T A (length A) (hoistFrom T (Suc i) B)" by simp
    moreover have "hoistFrom T i B = hoistFrom T (Suc i) B"
      using False i len by (subst hoistFrom.simps) simp
    ultimately show ?thesis by simp
  qed
qed

lemma anchoredCode_init: "anchoredCode (initDecl n)"
  by (simp add: anchoredCode_def initDecl_def list_all_iff)

lemma hoistInv_start: "hoistInv T A 0 A"
  by (auto simp: hoistInv_def hoistDest_def)

lemma odd_not_commentType: "odd (w :: lineType) \<Longrightarrow> w \<noteq> commentType"
  by (auto simp: commentType_def)

text \<open>
  C5. After the scan loop of \<open>formatDeclHTML\<close>, take a line \<open>i\<close> that carries anchors.
  If the next line carries no anchor, or \<open>i\<close> is the last line, the hoist pass puts these
  anchors on line \<open>runStart (lineTypes st) i\<close>, the first line of the maximal run of
  comment-only lines that ends just before \<open>i\<close> (the lines from there up to \<open>i\<close> are
  comment-only, the line before is not), and leaves line \<open>i\<close> without anchors when that
  run is not empty. If the next line carries an anchor, or the line before \<open>i\<close> is not
  comment-only, the anchors stay on line \<open>i\<close>.
\<close>

theorem C5_anchor_hoist:
  assumes run: "scanDecl formatLine anchorPoints anchorLinks src toks (initDecl numLines) = Some st"
    and i: "i < length (anchorLines st)" and a: "anchorLines st ! i \<noteq> []"
  shows "(Suc i = length (anchorLines st) \<or> anchorLines st ! Suc i = [] \<longrightarrow>
            hoistAnchors (lineTypes st) (anchorLines st) ! runStart (lineTypes st) i = anchorLines st ! i
            \<and> (runStart (lineTypes st) i < i \<longrightarrow> hoistAnchors (lineTypes st) (anchorLines st) ! i = [])
            \<and> (\<forall>k. runStart (lineTypes st) i \<le> k \<and> k < i \<longrightarrow> lineTypes st ! k = commentType)
            \<and> (runStart (lineTypes st) i = 0
                \<or> lineTypes st ! (runStart (lineTypes st) i - 1) \<noteq> commentType))
       \<and> (\<not> (Suc i = length (anchorLines st) \<or> anchorLines st ! Suc i = []) \<longrightarrow>
            hoistAnchors (lineTypes st) (anchorLines st) ! i = anchorLines st ! i)
       \<and> (i = 0 \<or> lineTypes st ! (i - 1) \<noteq> commentType \<longrightarrow>
            hoistAnchors (lineTypes st) (anchorLines st) ! i = anchorLines st ! i)"
proof -
  let ?A = "anchorLines st" and ?T = "lineTypes st"
  let ?R = "hoistAnchors ?T ?A"
  from scanDecl_anchoredCode[OF run anchoredCode_init] have ac: "anchoredCode st" by simp
  have inv0: "\<forall>k < length ?A. ?A ! k \<noteq> [] \<longrightarrow> ?T ! k \<noteq> commentType"
    using ac odd_not_commentType by (auto simp: anchoredCode_def list_all_iff)
  from hoistFrom_inv[OF inv0 hoistInv_start] have J: "hoistInv ?T ?A (length ?A) ?R"
    by (simp add: hoistAnchors_def)
  have dest: "?R ! hoistDest ?T ?A (length ?A) i = ?A ! i"
  proof -
    have "hoistDest ?T ?A (length ?A) i < length ?A"
      using hoistDest_le[of ?T ?A "length ?A" i] i by simp
    with J i a show ?thesis unfolding hoistInv_def by blast
  qed
  have gone: "?R ! i = []" if m: "hoistDest ?T ?A (length ?A) i < i"
  proof -
    have "\<forall>e < length ?A. ?A ! e \<noteq> [] \<longrightarrow> hoistDest ?T ?A (length ?A) e \<noteq> i"
    proof (intro allI impI notI)
      fix e assume e: "e < length ?A" "?A ! e \<noteq> []" and d: "hoistDest ?T ?A (length ?A) e = i"
      from m d have "e \<noteq> i" by auto
      with d have "hoistDest ?T ?A (length ?A) e \<noteq> e" by simp
      from hoistDest_comment[OF this]
      have "?T ! hoistDest ?T ?A (length ?A) e = commentType" by (rule conjunct1)
      then have "?T ! i = commentType" by (simp only: d)
      with inv0 i a show False by simp
    qed
    with J i show ?thesis unfolding hoistInv_def by blast
  qed
  have 1: "?R ! runStart ?T i = ?A ! i \<and> (runStart ?T i < i \<longrightarrow> ?R ! i = [])
        \<and> (\<forall>k. runStart ?T i \<le> k \<and> k < i \<longrightarrow> ?T ! k = commentType)
        \<and> (runStart ?T i = 0 \<or> ?T ! (runStart ?T i - 1) \<noteq> commentType)"
    if ne: "Suc i = length ?A \<or> ?A ! Suc i = []"
  proof -
    from ne i have d: "hoistDest ?T ?A (length ?A) i = runStart ?T i"
      by (simp add: hoistDest_def)
    with dest gone runStart_run[of ?T i] runStart_maximal[of ?T i] show ?thesis by auto
  qed
  have 2: "?R ! i = ?A ! i" if "\<not> (Suc i = length ?A \<or> ?A ! Suc i = [])"
  proof -
    from that have "hoistDest ?T ?A (length ?A) i = i" by (simp add: hoistDest_def)
    with dest show ?thesis by simp
  qed
  have 3: "?R ! i = ?A ! i" if f: "i = 0 \<or> ?T ! (i - 1) \<noteq> commentType"
  proof -
    from runStart_fix[OF f] have "hoistDest ?T ?A (length ?A) i = i" by (simp add: hoistDest_def)
    with dest show ?thesis by simp
  qed
  from 1 2 3 show ?thesis by blast
qed


theorem C5_anchor_hoist_witness:
  "scanDecl (\<lambda>s. Some (HTMLEscaped s)) [\<lparr>ID = ''A'', Kind = ''constant''\<rparr>] [[]] constSrc constToks
     (initDecl 4) = Some constState
   \<and> hoistAnchors (lineTypes constState) (anchorLines constState) ! 1
       = [\<lparr>ID = ''A'', Kind = ''constant''\<rparr>]
   \<and> hoistAnchors (lineTypes constState) (anchorLines constState) ! 2 = []"
proof -
  have run: "scanDecl (\<lambda>s. Some (HTMLEscaped s)) [\<lparr>ID = ''A'', Kind = ''constant''\<rparr>] [[]]
      constSrc constToks (initDecl 4) = Some constState"
    by (simp add: constSrc_def constToks_def initDecl_def slice_def Let_def TrimSuffixNL_def
      codeType_def commentType_def suffix_to_prefix constState_def numeral_eq_Suc)
  have rs: "runStart (lineTypes constState) 2 = 1"
    by (simp add: constState_def commentType_def numeral_eq_Suc)
  have "2 < length (anchorLines constState)" "anchorLines constState ! 2 \<noteq> []"
    "Suc 2 = length (anchorLines constState) \<or> anchorLines constState ! Suc 2 = []"
    by (simp_all add: constState_def)
  with C5_anchor_hoist[OF run, of 2] rs
  have "hoistAnchors (lineTypes constState) (anchorLines constState) ! 1 = anchorLines constState ! 2
     \<and> hoistAnchors (lineTypes constState) (anchorLines constState) ! 2 = []"
    by auto
  then show ?thesis using run by (simp add: constState_def)
qed

subsection \<open>Literal trimming\<close>

lemma rewriteLongValue_settled:
  assumes "0 \<le> mx" "0 \<le> me"
  shows "rewriteLongValue mx me (rewriteNode mx me (fst (rewriteLongValue mx me v c))) c'
     = (rewriteNode mx me (fst (rewriteLongValue mx me v c)), c')"
proof (cases v)
  case (BasicLit p k val)
  with assms show ?thesis by (auto simp: Let_def)
next
  case (CompositeLit ty lb elts)
  with assms show ?thesis by auto
qed (auto split: option.splits prod.splits)

lemma rewriteLongValue_idem:
  assumes "rewriteNode mx me (rewriteNode mx me v) = rewriteNode mx me v"
  shows "rewriteNode mx me (rewriteNode mx me (fst (rewriteLongValue mx me v c)))
     = rewriteNode mx me (fst (rewriteLongValue mx me v c))"
proof (cases v)
  case (BasicLit p k val)
  then show ?thesis by (auto simp: Let_def)
next
  case (CompositeLit ty lb elts)
  with assms show ?thesis by auto
qed (use assms in auto)

lemma rewriteValues_settled:
  assumes "0 \<le> mx" "0 \<le> me"
  shows "rewriteValues mx me (map (rewriteNode mx me) (fst (rewriteValues mx me vs c))) c'
     = (map (rewriteNode mx me) (fst (rewriteValues mx me vs c)), c')"
proof (induction vs arbitrary: c c')
  case Nil
  show ?case by simp
next
  case (Cons v vs)
  obtain v1 c1 where a: "rewriteLongValue mx me v c = (v1, c1)" by force
  obtain vs1 c2 where b: "rewriteValues mx me vs c1 = (vs1, c2)" by force
  from rewriteLongValue_settled[OF assms, of v c c'] a
  have 1: "rewriteLongValue mx me (rewriteNode mx me v1) c' = (rewriteNode mx me v1, c')" by simp
  from Cons.IH[of c1 c'] b
  have 2: "rewriteValues mx me (map (rewriteNode mx me) vs1) c' = (map (rewriteNode mx me) vs1, c')"
    by simp
  from a b 1 2 show ?case by simp
qed

lemma rewriteValues_idem:
  assumes "\<forall>v \<in> set vs. rewriteNode mx me (rewriteNode mx me v) = rewriteNode mx me v"
  shows "\<forall>x \<in> set (fst (rewriteValues mx me vs c)).
           rewriteNode mx me (rewriteNode mx me x) = rewriteNode mx me x"
  using assms
proof (induction vs arbitrary: c)
  case Nil
  show ?case by simp
next
  case (Cons v vs)
  obtain v1 c1 where a: "rewriteLongValue mx me v c = (v1, c1)" by force
  obtain vs1 c2 where b: "rewriteValues mx me vs c1 = (vs1, c2)" by force
  from Cons.prems rewriteLongValue_idem[of mx me v c] a
  have 1: "rewriteNode mx me (rewriteNode mx me v1) = rewriteNode mx me v1" by simp
  from Cons.IH[of c1] Cons.prems b
  have 2: "\<forall>x \<in> set vs1. rewriteNode mx me (rewriteNode mx me x) = rewriteNode mx me x" by simp
  from a b 1 2 show ?case by simp
qed

lemma rewriteNode_idem:
  assumes mx: "0 \<le> mx" and me: "0 \<le> me"
  shows "rewriteNode mx me (rewriteNode mx me n) = rewriteNode mx me n"
proof (induction n)
  case (Ident x)
  show ?case by simp
next
  case (BasicLit p k v)
  show ?case by simp
next
  case (CompositeLit ty lb elts)
  then show ?case by (cases ty) auto
next
  case (ValueSpec doc names ty vals cmt)
  obtain vals1 cmt1 where a: "rewriteValues mx me vals cmt = (vals1, cmt1)" by force
  have n: "map (rewriteNode mx me) (map (rewriteNode mx me) names) = map (rewriteNode mx me) names"
    using ValueSpec.IH(1) by simp
  have t: "map_option (rewriteNode mx me) (map_option (rewriteNode mx me) ty)
      = map_option (rewriteNode mx me) ty"
    using ValueSpec.IH(2) by (cases ty) auto
  from rewriteValues_settled[OF mx me, of vals cmt cmt1] a
  have s: "rewriteValues mx me (map (rewriteNode mx me) vals1) cmt1
      = (map (rewriteNode mx me) vals1, cmt1)" by simp
  from rewriteValues_idem[of vals mx me cmt] ValueSpec.IH(3) a
  have v: "map (rewriteNode mx me) (map (rewriteNode mx me) vals1) = map (rewriteNode mx me) vals1"
    by simp
  from a n t s v show ?case by simp
next
  case (Field doc names ty tag cmt)
  have n: "map (rewriteNode mx me) (map (rewriteNode mx me) names) = map (rewriteNode mx me) names"
    using Field.IH(1) by simp
  have t: "map_option (rewriteNode mx me) (map_option (rewriteNode mx me) ty)
      = map_option (rewriteNode mx me) ty"
    using Field.IH(2) by (cases ty) auto
  show ?case
  proof (cases tag)
    case None
    with n t show ?thesis by simp
  next
    case (Some tg)
    obtain t1 cmt1 where a: "rewriteLongValue mx me tg cmt = (t1, cmt1)" by force
    from Field.IH(3) Some have "rewriteNode mx me (rewriteNode mx me tg) = rewriteNode mx me tg"
      by simp
    from rewriteLongValue_idem[OF this, of cmt] a
    have 1: "rewriteNode mx me (rewriteNode mx me t1) = rewriteNode mx me t1" by simp
    from rewriteLongValue_settled[OF mx me, of tg cmt cmt1] a
    have 2: "rewriteLongValue mx me (rewriteNode mx me t1) cmt1 = (rewriteNode mx me t1, cmt1)"
      by simp
    from Some a n t 1 2 show ?thesis by simp
  qed
next
  case (Node k cs)
  then show ?case by simp
qed

lemma decimal_digit: "n < 10 \<Longrightarrow> decimal n = [digitChar n]"
  by simp

text \<open>
  C6. \<open>rewriteDecl\<close> is idempotent: for thresholds that are a length and a count (not
  negative), a second application with the same thresholds returns the tree of the
  first, comments included.
\<close>

theorem C6_rewriteDecl_idempotent:
  assumes "0 \<le> maxStringSize" and "0 \<le> maxElements"
  shows "rewriteDecl (rewriteDecl n maxStringSize maxElements) maxStringSize maxElements
     = rewriteDecl n maxStringSize maxElements"
  using rewriteNode_idem[OF assms] by (simp add: rewriteDecl_def)

theorem C6_rewriteDecl_idempotent_witness:
  "rewriteDecl litDecl 2 1 = Node ''GenDecl''
     [ValueSpec None [Ident ''x'', Ident ''y''] None
        [BasicLit 11 STRING [CHR 0x22, CHR 0x22],
         CompositeLit (Some (Node ''ArrayType'' [Ident ''T''])) 22 []]
        (Some [AstComment 11 ''/* 4-byte string literal not displayed */'',
               AstComment 22 ''/* 2 elements not displayed */''])]
   \<and> rewriteDecl (rewriteDecl litDecl 2 1) 2 1 = rewriteDecl litDecl 2 1"
proof -
  have "rewriteDecl (rewriteDecl litDecl 2 1) 2 1 = rewriteDecl litDecl 2 1"
    using C6_rewriteDecl_idempotent[of 2 1 litDecl] by simp
  then show ?thesis
    by (simp add: rewriteDecl_def litDecl_def Let_def addComment_def itoa_def digitChar_def)
qed

subsection \<open>Identifiers of the tree and of the trimmed tree\<close>

lemma concat_replicate_single: "concat (replicate n [x]) = replicate n x"
  by (induction n) auto

text \<open>
  C1. \<open>formatDeclHTML\<close> fills \<open>anchorPoints\<close> and \<open>anchorLinks\<close> from the tree as it is
  given, 104 identifiers for \<open>bigDecl\<close>, and prints and scans the tree that \<open>rewriteDecl\<close>
  returns, in which the 101 elements are gone: three identifiers are left, and the third,
  \<open>Y\<close>, meets the entry of the first element \<open>a\<close>.
\<close>

theorem C1_ident_count_mismatch:
  "inspectIdents bigDecl = [Ident ''X'', Ident ''T''] @ replicate 101 (Ident ''a'') @ [Ident ''Y'']
   \<and> length (inspectIdents bigDecl) = 104
   \<and> inspectIdents (rewriteDecl bigDecl 125 100) = [Ident ''X'', Ident ''T'', Ident ''Y'']"
  by (simp add: bigDecl_def rewriteDecl_def concat_replicate_single Let_def)

subsection \<open>Prose lines: the matches\<close>

lemma DecodeRune_ascii:
  "DecodeRune (c # s) = (r, w) \<Longrightarrow> r < 0x80 \<Longrightarrow> w = 1 \<and> r = byte c \<and> byte c < 0x80"
  by (auto simp: Let_def RuneError_def split: if_splits list.splits)

lemma DecodeRune_lead:
  "DecodeRune (c # s) = (r, w) \<Longrightarrow> r \<noteq> RuneError \<Longrightarrow> \<not> r < 0x80 \<Longrightarrow> 0xC2 \<le> byte c"
  by (auto simp: Let_def split: if_splits list.splits)

lemma DecodeRune_high:
  "DecodeRune (c # s) = (r, w) \<Longrightarrow> \<not> byte c < 0x80 \<Longrightarrow> \<forall>x \<in> set (take w (c # s)). 0x80 \<le> byte x"
  by (auto simp: Let_def contByte_def split: if_splits list.splits)

lemma identStartLen_bytes:
  assumes "identStartLen uni s = w" "0 < w"
  shows "w \<le> length s \<and> (\<forall>c \<in> set (take w s). identByte c)
     \<and> (isASCIILetter (hd s) \<or> hd s = CHR ''_'' \<or> 0xC2 \<le> byte (hd s))"
proof (cases s)
  case Nil
  with assms show ?thesis by (simp add: identStartLen_def runeAt_def)
next
  case (Cons c t)
  show ?thesis
  proof (cases "c = CHR ''_''")
    case True
    with Cons assms show ?thesis by (auto simp: identStartLen_def identByte_def)
  next
    case False
    obtain r v where d: "DecodeRune (c # t) = (r, v)" by force
    with False Cons assms have cl: "classOf uni r = Letter" and w: "w = v"
      by (auto simp: identStartLen_def runeAt_def split: if_splits)
    from DecodeRune_width[of "c # t"] d have v: "1 \<le> v" "v \<le> length (c # t)" by auto
    show ?thesis
    proof (cases "r < 0x80")
      case True
      from DecodeRune_ascii[OF d True] have a: "v = 1" "r = byte c" by auto
      with cl True have "isASCIILetter c"
        by (auto simp: classOf_def isASCIILetter_def split: if_splits)
      with a w Cons show ?thesis by (auto simp: identByte_def)
    next
      case False
      with cl have ne: "r \<noteq> RuneError" by (auto simp: classOf_def split: if_splits)
      from DecodeRune_lead[OF d ne False] have lead: "0xC2 \<le> byte c" .
      then have "\<not> byte c < 0x80" by simp
      from DecodeRune_high[OF d this] have "\<forall>x \<in> set (take v (c # t)). identByte x"
        by (auto simp: identByte_def)
      with v w lead Cons show ?thesis by auto
    qed
  qed
qed

lemma identPartLen_bytes:
  assumes "identPartLen uni s = w" "0 < w"
  shows "w \<le> length s \<and> (\<forall>c \<in> set (take w s). identByte c)
     \<and> (isASCIILetter (hd s) \<or> isASCIIDigit (hd s) \<or> hd s = CHR ''_'' \<or> 0xC2 \<le> byte (hd s))"
proof (cases s)
  case Nil
  with assms show ?thesis by (simp add: identPartLen_def)
next
  case (Cons c t)
  show ?thesis
  proof (cases "isASCIIDigit c")
    case True
    with Cons assms show ?thesis by (auto simp: identPartLen_def identByte_def)
  next
    case False
    with Cons assms have "identStartLen uni s = w" by (simp add: identPartLen_def)
    from identStartLen_bytes[OF this assms(2)] show ?thesis by auto
  qed
qed

lemma identTailLen_bytes:
  "identTailLen uni s \<le> length s \<and> (\<forall>c \<in> set (take (identTailLen uni s) s). identByte c)"
proof (induction uni s rule: identTailLen.induct)
  case (1 uni s)
  let ?w = "identPartLen uni s"
  show ?case
  proof (cases "0 < ?w \<and> ?w \<le> length s")
    case False
    then have "identTailLen uni s = 0" by (subst identTailLen.simps) (simp add: Let_def)
    then show ?thesis by simp
  next
    case True
    then have e: "identTailLen uni s = ?w + identTailLen uni (drop ?w s)"
      by (subst identTailLen.simps) (simp add: Let_def)
    from "1.IH"[OF refl True] have ih: "identTailLen uni (drop ?w s) \<le> length (drop ?w s)"
      "\<forall>c \<in> set (take (identTailLen uni (drop ?w s)) (drop ?w s)). identByte c" by auto
    from identPartLen_bytes[OF refl, of uni s] True
    have p: "\<forall>c \<in> set (take ?w s). identByte c" by simp
    have "take (?w + identTailLen uni (drop ?w s)) s
        = take ?w s @ take (identTailLen uni (drop ?w s)) (drop ?w s)"
      by (simp add: take_add)
    with e ih p True show ?thesis by auto
  qed
qed

lemma identLen_bytes:
  "identLen uni s \<le> length s \<and> (\<forall>c \<in> set (take (identLen uni s) s). identByte c)"
proof (cases "identStartLen uni s = 0")
  case True
  then show ?thesis by (simp add: identLen_def)
next
  case False
  let ?w = "identStartLen uni s"
  from False have e: "identLen uni s = ?w + identTailLen uni (drop ?w s)"
    by (simp add: identLen_def Let_def)
  from False identStartLen_bytes[OF refl, of uni s]
  have p: "?w \<le> length s" "\<forall>c \<in> set (take ?w s). identByte c" by auto
  from identTailLen_bytes[of uni "drop ?w s"]
  have t: "identTailLen uni (drop ?w s) \<le> length (drop ?w s)"
    "\<forall>c \<in> set (take (identTailLen uni (drop ?w s)) (drop ?w s)). identByte c" by auto
  have "take (?w + identTailLen uni (drop ?w s)) s
      = take ?w s @ take (identTailLen uni (drop ?w s)) (drop ?w s)"
    by (simp add: take_add)
  with e p t show ?thesis by auto
qed

lemma qualTailLen_bytes:
  "qualTailLen uni s \<le> length s \<and> (\<forall>c \<in> set (take (qualTailLen uni s) s). identByte c)"
proof (induction uni s rule: qualTailLen.induct)
  case (1 uni s)
  show ?case
  proof (cases s)
    case Nil
    then show ?thesis by (subst qualTailLen.simps) simp
  next
    case (Cons c t)
    let ?n = "identLen uni t"
    show ?thesis
    proof (cases "c = CHR ''.'' \<and> ?n > 0")
      case False
      with Cons have "qualTailLen uni s = 0" by (subst qualTailLen.simps) (auto simp: Let_def)
      then show ?thesis by simp
    next
      case True
      with Cons have e: "qualTailLen uni s = 1 + ?n + qualTailLen uni (drop ?n t)"
        by (subst qualTailLen.simps) (simp add: Let_def)
      from "1.IH"[OF Cons refl True] have ih: "qualTailLen uni (drop ?n t) \<le> length (drop ?n t)"
        "\<forall>c \<in> set (take (qualTailLen uni (drop ?n t)) (drop ?n t)). identByte c" by auto
      from identLen_bytes[of uni t] have p: "?n \<le> length t" "\<forall>c \<in> set (take ?n t). identByte c"
        by auto
      have "take (1 + ?n + qualTailLen uni (drop ?n t)) (c # t)
          = c # take ?n t @ take (qualTailLen uni (drop ?n t)) (drop ?n t)"
        by (simp add: take_add)
      with e ih p True Cons show ?thesis by (auto simp: identByte_def)
    qed
  qed
qed

lemma matchQualIdent_bytes:
  assumes "matchQualIdent uni s = Some n"
  shows "0 < n \<and> n \<le> length s \<and> (\<forall>c \<in> set (take n s). identByte c)"
proof -
  let ?k = "identLen uni s"
  from assms have k: "?k \<noteq> 0" and n: "n = ?k + qualTailLen uni (drop ?k s)"
    by (auto simp: matchQualIdent_def Let_def split: if_splits)
  from identLen_bytes[of uni s] have p: "?k \<le> length s" "\<forall>c \<in> set (take ?k s). identByte c"
    by auto
  from qualTailLen_bytes[of uni "drop ?k s"]
  have t: "qualTailLen uni (drop ?k s) \<le> length (drop ?k s)"
    "\<forall>c \<in> set (take (qualTailLen uni (drop ?k s)) (drop ?k s)). identByte c" by auto
  have "take (?k + qualTailLen uni (drop ?k s)) s
      = take ?k s @ take (qualTailLen uni (drop ?k s)) (drop ?k s)"
    by (simp add: take_add)
  with n k p t show ?thesis by auto
qed

lemma Contains_member: "Contains s (c # sub) \<Longrightarrow> c \<in> set s"
  by (induction s) (auto simp: prefix_def)

lemma ident_not_url:
  assumes "matchQualIdent uni s = Some n"
  shows "\<not> Contains (take n s) ''://''"
proof
  assume "Contains (take n s) ''://''"
  then have "CHR '':'' \<in> set (take n s)" by (rule Contains_member)
  with matchQualIdent_bytes[OF assms] have "identByte (CHR '':'')" by blast
  then show False by (simp add: identByte_def isASCIILetter_def isASCIIDigit_def byte_def)
qed

lemma DecodeRune_low: "byte c < 0x80 \<Longrightarrow> DecodeRune (c # s) = (byte c, 1)"
  by simp

lemma identStartLen_letter:
  assumes "isASCIILetter a"
  shows "identStartLen uni (a # t) = 1"
proof -
  from assms have lo: "byte a < 0x80" and cl: "classOf uni (byte a) = Letter"
    by (auto simp: isASCIILetter_def classOf_def)
  from assms have "a \<noteq> CHR ''_''" by (auto simp: isASCIILetter_def byte_def)
  then have "\<not> prefix ''_'' (a # t)" by simp
  with cl show ?thesis
    by (simp add: identStartLen_def runeAt_def DecodeRune_low[OF lo] del: DecodeRune.simps)
qed

lemma identTailLen_letter:
  assumes "isASCIILetter a"
  shows "identTailLen uni (a # t) = 1 + identTailLen uni t"
proof -
  from assms have "\<not> isASCIIDigit a" by (auto simp: isASCIILetter_def isASCIIDigit_def)
  with assms have "identPartLen uni (a # t) = 1"
    by (simp add: identPartLen_def identStartLen_letter)
  then show ?thesis by (subst identTailLen.simps) (simp add: Let_def)
qed

lemma qualTailLen_pos: "0 < qualTailLen uni s \<Longrightarrow> hd s = CHR ''.''"
  by (subst (asm) qualTailLen.simps) (auto simp: Let_def split: list.splits if_splits)

lemma identTailLen_pos: "0 < identTailLen uni s \<Longrightarrow> 0 < identPartLen uni s"
  by (subst (asm) identTailLen.simps) (auto simp: Let_def split: if_splits)

lemma ident_not_rfc:
  assumes m: "matchQualIdent uni s = Some n"
  shows "\<not> rfcCase (take n s)"
proof
  assume r: "rfcCase (take n s)"
  then have p: "prefix ''RFC'' (take n s)" and l: "3 < length (take n s)"
    and sp: "IsSpaceByte (take n s ! 3)" by (auto simp: rfcCase_def)
  from l have n3: "3 < n" and s3: "3 < length s" by auto
  from p obtain z where "take n s = ''RFC'' @ z" by (auto simp: prefix_def)
  with append_take_drop_id[of n s] have "s = ''RFC'' @ z @ drop n s" by (metis append.assoc)
  with s3 obtain c u where s: "s = ''RFC'' @ c # u" by (cases "z @ drop n s") auto
  with n3 sp have spc: "IsSpaceByte c" by simp
  have L: "isASCIILetter (CHR ''R'')" "isASCIILetter (CHR ''F'')" "isASCIILetter (CHR ''C'')"
    by (simp_all add: isASCIILetter_def byte_def)
  have il: "identLen uni s = 3 + identTailLen uni (c # u)"
    using L s by (simp add: identLen_def identStartLen_letter identTailLen_letter)
  from m have n: "n = identLen uni s + qualTailLen uni (drop (identLen uni s) s)"
    by (auto simp: matchQualIdent_def Let_def split: if_splits)
  have nospace: "\<not> IsSpaceByte x"
    if "isASCIILetter x \<or> isASCIIDigit x \<or> x = CHR ''_'' \<or> x = CHR ''.'' \<or> 0xC2 \<le> byte x" for x
    using that by (auto simp: IsSpaceByte_def isASCIILetter_def isASCIIDigit_def byte_def)
  show False
  proof (cases "0 < identTailLen uni (c # u)")
    case True
    from identPartLen_bytes[OF refl identTailLen_pos[OF True]] nospace[of c] spc
    show False by auto
  next
    case False
    with il have "identLen uni s = 3" by simp
    with n n3 s have "0 < qualTailLen uni (c # u)" by simp
    from qualTailLen_pos[OF this] nospace[of c] spc show False by simp
  qed
qed

lemma pathLen_le: "pathLen s \<le> length s"
proof (induction s rule: pathLen.induct)
  case (1 s)
  let ?p = "length (takeWhile punctChar s)"
  show ?case
  proof (cases "?p < length s \<and> pathChar (s ! ?p)")
    case True
    then have "pathLen s = ?p + 1 + pathLen (drop (?p + 1) s)"
      by (subst pathLen.simps) (simp add: Let_def)
    moreover from "1.IH"[OF refl True]
    have "pathLen (drop (?p + 1) s) \<le> length s - (?p + 1)" by simp
    ultimately show ?thesis using True by linarith
  next
    case False
    then have "pathLen s = 0" by (subst pathLen.simps) (auto simp: Let_def)
    then show ?thesis by simp
  qed
qed

lemma dottedLen_le: "dottedLen s \<le> length s"
proof (induction s rule: dottedLen.induct)
  case (1 s)
  show ?case
  proof (cases s)
    case Nil
    then show ?thesis by (subst dottedLen.simps) simp
  next
    case (Cons c t)
    let ?d = "length (takeWhile isASCIIDigit t)"
    have d: "?d \<le> length t" by (rule length_takeWhile_le)
    show ?thesis
    proof (cases "c = CHR ''.'' \<and> ?d > 0")
      case True
      with Cons have "dottedLen s = 1 + ?d + dottedLen (drop ?d t)"
        by (subst dottedLen.simps) (simp add: Let_def)
      with "1.IH"[OF Cons refl True] d Cons show ?thesis by simp
    next
      case False
      with Cons have "dottedLen s = 0" by (subst dottedLen.simps) (auto simp: Let_def)
      then show ?thesis by simp
    qed
  qed
qed

lemma matchProto_Some:
  "matchProto s = Some k \<Longrightarrow> \<exists>p. p \<in> set protos \<and> prefix (p @ ''://'') s \<and> k = length p + 3"
proof -
  assume a: "matchProto s = Some k"
  then obtain p ps where f: "filter (\<lambda>p. prefix (p @ ''://'') s) protos = p # ps"
    and k: "k = length p + 3"
    by (auto simp: matchProto_def split: list.splits)
  from f have "p \<in> set (filter (\<lambda>p. prefix (p @ ''://'') s) protos)" by simp
  with k show ?thesis by auto
qed

lemma take_app3:
  "length a + length b \<le> n \<Longrightarrow> take n (a @ b @ z) = a @ b @ take (n - length a - length b) z"
  by simp

lemma matchURL_Some:
  assumes "matchURL s = Some n"
  shows "0 < n \<and> n \<le> length s \<and> Contains (take n s) ''://''"
proof -
  from assms obtain k where mp: "matchProto s = Some k"
    and n: "n = k + length (takeWhile hostChar (drop k s))
              + pathLen (drop (k + length (takeWhile hostChar (drop k s))) s)"
    by (auto simp: matchURL_def Let_def split: option.splits if_splits)
  from matchProto_Some[OF mp] obtain p where p: "prefix (p @ ''://'') s" and k: "k = length p + 3"
    by blast
  then obtain z where s: "s = p @ ''://'' @ z" by (auto simp: prefix_def)
  let ?h = "length (takeWhile hostChar (drop k s))"
  have h: "?h \<le> length s - k" using length_takeWhile_le[of hostChar "drop k s"] by simp
  have pl: "pathLen (drop (k + ?h) s) \<le> length s - (k + ?h)"
    using pathLen_le[of "drop (k + ?h) s"] by simp
  from s k have ks: "k \<le> length s" by simp
  with n h pl have le: "n \<le> length s" by simp
  have "Contains (a @ ''://'' @ b) ''://''" for a b :: string
    by (induction a) (auto simp: prefix_def)
  moreover from n k have "length p + 3 \<le> n" by simp
  then have "take n s = p @ ''://'' @ take (n - length p - length ''://'') z"
    unfolding s by (intro take_app3) simp
  ultimately have "Contains (take n s) ''://''" by metis
  with le n k show ?thesis by simp
qed

lemma sectionLen_le: "sectionLen s = Some m \<Longrightarrow> m \<le> length s"
proof -
  assume a: "sectionLen s = Some m"
  define c :: nat where "c = (if prefix '','' s then 1 else 0)"
  define s1 where "s1 = drop c s"
  define w1 where "w1 = length (takeWhile rxSpace s1)"
  define s2 where "s2 = drop w1 s1"
  define s3 where "s3 = drop 7 s2"
  define w2 where "w2 = length (takeWhile rxSpace s3)"
  define s4 where "s4 = drop w2 s3"
  define d where "d = length (takeWhile isASCIIDigit s4)"
  from a have m: "m = c + w1 + 7 + w2 + d + dottedLen (drop d s4)"
    and sec: "prefix ''Section'' s2 \<or> prefix ''section'' s2"
    unfolding sectionLen_def c_def s1_def w1_def s2_def s3_def w2_def s4_def d_def
    by (auto simp: Let_def split: if_splits)
  have c: "c \<le> length s" by (auto simp: c_def prefix_def)
  have w1: "w1 \<le> length s1" unfolding w1_def by (rule length_takeWhile_le)
  from sec have 7: "7 \<le> length s2" by (auto simp: prefix_def)
  have w2: "w2 \<le> length s3" unfolding w2_def by (rule length_takeWhile_le)
  have d: "d \<le> length s4" unfolding d_def by (rule length_takeWhile_le)
  have dl: "dottedLen (drop d s4) \<le> length s4 - d" using dottedLen_le[of "drop d s4"] by simp
  have "length s1 = length s - c" "length s2 = length s1 - w1" "length s3 = length s2 - 7"
    "length s4 = length s3 - w2"
    by (simp_all add: s1_def s2_def s3_def s4_def)
  with m c w1 7 w2 d dl show ?thesis by linarith
qed

lemma matchRFC_le:
  assumes "matchRFC s = Some n"
  shows "0 < n \<and> n \<le> length s"
proof -
  define w where "w = length (takeWhile rxSpace (drop 3 s))"
  define d where "d = min 5 (length (takeWhile isASCIIDigit (drop (3 + w) s)))"
  define e where "e = (case sectionLen (drop (3 + w + d) s) of None \<Rightarrow> 0 | Some n \<Rightarrow> n)"
  from assms have p: "prefix ''RFC'' s" and n: "n = 3 + w + d + e"
    unfolding w_def d_def e_def matchRFC_def by (auto simp: Let_def split: if_splits)
  from p have 3: "3 \<le> length s" by (auto simp: prefix_def)
  have w: "w \<le> length s - 3" unfolding w_def using length_takeWhile_le[of rxSpace "drop 3 s"] by simp
  have d: "d \<le> length s - (3 + w)"
    unfolding d_def using length_takeWhile_le[of isASCIIDigit "drop (3 + w) s"] by simp
  have e: "e \<le> length s - (3 + w + d)"
    unfolding e_def using sectionLen_le[of "drop (3 + w + d) s"] by (auto split: option.splits)
  from n 3 w d e show ?thesis by linarith
qed

lemma matchAt_le: "matchAt uni s = Some n \<Longrightarrow> 0 < n \<and> n \<le> length s"
  using matchURL_Some[of s n] matchRFC_le[of s n] matchQualIdent_bytes[of uni s n]
  by (auto simp: matchAt_def split: option.splits)

lemma findFrom_Some:
  "findFrom uni k s = Some (a, b) \<Longrightarrow>
     \<exists>j. a = k + j \<and> j < length s \<and> matchAt uni (drop j s) = Some (b - a) \<and> a < b
        \<and> b \<le> k + length s"
proof (induction s arbitrary: k)
  case Nil
  then show ?case by simp
next
  case (Cons c s)
  show ?case
  proof (cases "matchAt uni (c # s)")
    case (Some n)
    with Cons.prems have "a = k" "b = k + n" by auto
    with Some matchAt_le[OF Some] show ?thesis by (intro exI[of _ 0]) auto
  next
    case None
    with Cons.prems have "findFrom uni (k + 1) s = Some (a, b)" by simp
    from Cons.IH[OF this] obtain j where "a = k + 1 + j" "j < length s"
      "matchAt uni (drop j s) = Some (b - a)" "a < b" "b \<le> k + 1 + length s" by blast
    then show ?thesis by (intro exI[of _ "Suc j"]) auto
  qed
qed

lemma FindStringIndex_Some:
  assumes "FindStringIndex uni s = Some (m0, m1)"
  shows "m0 < m1 \<and> m1 \<le> length s \<and> matchAt uni (drop m0 s) = Some (m1 - m0)"
  using findFrom_Some[of uni 0 s m0 m1] assms by (auto simp: FindStringIndex_def)

lemmas rx_defs = FindStringIndex_def matchAt_def matchURL_def matchProto_def protos_def
  matchRFC_def sectionLen_def matchQualIdent_def identLen_def identStartLen_def identPartLen_def
  runeAt_def classOf_def hostChar_def punctChar_def pathChar_def rxSpace_def isASCIILetter_def
  isASCIIDigit_def byte_def pathLen.simps dottedLen.simps identTailLen.simps qualTailLen.simps

lemmas line_defs = formatLineHTML_def formatLoop.simps lineStep_def trimURL_def cutClose_def
  balance.simps rfcLink_def rfcFieldsOf_def fieldsFrom.simps rfcCase_def validPrefix_def
  validSuffix_def IsSpaceByte_def countQuotes_def countQuotesFrom.simps LastIndexAnyQuote_def
  LastIndexAny2_def quoteStart_def ulquo_def urquo_def slice_def Let_def

lemmas quote_defs = countQuotes_def countQuotesFrom.simps LastIndexAnyQuote_def
  LastIndexAny2_def quoteStart_def ulquo_def urquo_def slice_def Let_def

text \<open>
  C2. One iteration of the loop of \<open>formatLineHTML\<close> whose match is an identifier (neither
  the URL nor the RFC alternative matches at the place of the match): the identifier is
  given to the resolver exactly if \<open>lastChar\<close> is one of NUL, space, tab, \<open>(\<close>, \<open>)\<close>,
  \<open>[\<close>, \<open>]\<close>, \<open>*\<close>, newline, the byte after the match (NUL at the end of the line) is one
  of NUL, space, tab, \<open>(\<close>, \<open>)\<close>, \<open>[\<close>, \<open>]\<close>, \<open>:\<close>, \<open>;\<close>, \<open>,\<close>, \<open>.\<close>, \<open>'\<close>, newline,
  the quotes counted so far (those of the text before the match included) are even in
  number, hotlinking is enabled and a resolver is given; otherwise the identifier is
  escaped plain text. \<open>lastChar\<close> is the last byte of the latest unmatched text: the
  byte before the match when unmatched text precedes it, else the value of the previous
  iterations (NUL at the start of the line).
\<close>

theorem C2_identifier_linking:
  assumes find: "FindStringIndex uni (rest st) = Some (m0, m1)"
    and nourl: "matchURL (drop m0 (rest st)) = None"
    and norfc: "matchRFC (drop m0 (rest st)) = None"
  shows "\<exists>st1. lineStep uni disableHotlinking idr st = Some st1
     \<and> rest st1 = drop m1 (rest st)
     \<and> lastChar st1 = (if m0 > 0 then rest st ! (m0 - 1) else lastChar st)
     \<and> numQuotes st1 = numQuotes st + (if m0 > 0 then countQuotes (take m0 (rest st)) else 0)
          + countQuotes (take (m1 - m0) (drop m0 (rest st)))
     \<and> htmls st1 = htmls st
          @ (if m0 > 0 then [HTMLEscaped (take m0 (rest st))] else [])
          @ [if validPrefix (if m0 > 0 then rest st ! (m0 - 1) else lastChar st)
                \<and> validSuffix (if m1 < length (rest st) then rest st ! m1 else CHR 0x00)
                \<and> (numQuotes st + (if m0 > 0 then countQuotes (take m0 (rest st)) else 0)) mod 2 = 0
                \<and> \<not> disableHotlinking \<and> idr
             then ToHTML (take (m1 - m0) (drop m0 (rest st)))
             else HTMLEscaped (take (m1 - m0) (drop m0 (rest st)))]"
proof -
  from FindStringIndex_Some[OF find] have lt: "m0 < m1"
    and m: "matchAt uni (drop m0 (rest st)) = Some (m1 - m0)" by auto
  with nourl norfc have q: "matchQualIdent uni (drop m0 (rest st)) = Some (m1 - m0)"
    by (simp add: matchAt_def)
  from ident_not_url[OF q] ident_not_rfc[OF q]
  have nu: "\<not> Contains (take (m1 - m0) (drop m0 (rest st))) ''://''"
    and nr: "\<not> rfcCase (take (m1 - m0) (drop m0 (rest st)))" by auto
  show ?thesis
    using find lt nu nr by (cases "m0 > 0") (auto simp: lineStep_def Let_def)
qed

text \<open>
  A closing bracket before an identifier does not prevent the link, and an identifier
  directly after an RFC reference is linked although a digit precedes it.
\<close>

theorem C2_counterexample:
  "formatLineHTML asciiTables False True ''[]Foo''
     = Some (HTMLConcat [HTMLEscaped ''[]'', ToHTML ''Foo''])
   \<and> formatLineHTML asciiTables False True ''RFC 1234x''
       = Some (HTMLConcat [LinkHTML ''https://rfc-editor.org/rfc/rfc1234.html'' ''RFC 1234'',
                           ToHTML ''x''])"
  by (simp add: rx_defs line_defs)

theorem C2_identifier_linking_witness:
  "lineStep asciiTables False True
      \<lparr>rest = '' io.EOF.'', lastChar = CHR 0x00, numQuotes = 0, htmls = []\<rparr>
     = Some \<lparr>rest = ''.'', lastChar = CHR '' '', numQuotes = 0,
              htmls = [HTMLEscaped '' '', ToHTML ''io.EOF'']\<rparr>
   \<and> lineStep asciiTables False True
      \<lparr>rest = ''Foo bar'', lastChar = CHR ''('', numQuotes = 1, htmls = []\<rparr>
     = Some \<lparr>rest = '' bar'', lastChar = CHR ''('', numQuotes = 1,
              htmls = [HTMLEscaped ''Foo'']\<rparr>"
proof -
  let ?s1 = "\<lparr>rest = '' io.EOF.'', lastChar = CHR 0x00, numQuotes = 0, htmls = []\<rparr>"
  let ?s2 = "\<lparr>rest = ''Foo bar'', lastChar = CHR ''('', numQuotes = 1, htmls = []\<rparr>"
  have f1: "FindStringIndex asciiTables (rest ?s1) = Some (1, 7)"
    and u1: "matchURL (drop 1 (rest ?s1)) = None" and r1: "matchRFC (drop 1 (rest ?s1)) = None"
    by (simp_all add: rx_defs)
  have f2: "FindStringIndex asciiTables (rest ?s2) = Some (0, 3)"
    and u2: "matchURL (drop 0 (rest ?s2)) = None" and r2: "matchRFC (drop 0 (rest ?s2)) = None"
    by (simp_all add: rx_defs)
  have q: "countQuotes '' '' = 0" "countQuotes ''io.EOF'' = 0" "countQuotes ''Foo'' = 0"
    by (simp_all add: quote_defs)
  have v: "validPrefix (CHR '' '')" "validSuffix (CHR ''.'')"
    by (simp_all add: validPrefix_def validSuffix_def)
  from C2_identifier_linking[OF f1 u1 r1, of False True] obtain a where
    "lineStep asciiTables False True ?s1 = Some a" "rest a = ''.''" "lastChar a = CHR '' ''"
    "numQuotes a = 0" "htmls a = [HTMLEscaped '' '', ToHTML ''io.EOF'']"
    by (auto simp: q v)
  then have 1: "lineStep asciiTables False True ?s1
      = Some \<lparr>rest = ''.'', lastChar = CHR '' '', numQuotes = 0,
              htmls = [HTMLEscaped '' '', ToHTML ''io.EOF'']\<rparr>"
    by (cases a) simp
  from C2_identifier_linking[OF f2 u2 r2, of False True] obtain b where
    "lineStep asciiTables False True ?s2 = Some b" "rest b = '' bar''" "lastChar b = CHR ''(''"
    "numQuotes b = 1" "htmls b = [HTMLEscaped ''Foo'']"
    by (auto simp: q)
  then have 2: "lineStep asciiTables False True ?s2
      = Some \<lparr>rest = '' bar'', lastChar = CHR ''('', numQuotes = 1,
              htmls = [HTMLEscaped ''Foo'']\<rparr>"
    by (cases b) simp
  from 1 2 show ?thesis by (rule conjI)
qed

subsection \<open>Prose lines: the URL case\<close>





lemma IndexByte_in: "c \<in> set s \<Longrightarrow> 0 \<le> IndexByte s c"
  by (induction s) (auto simp: Let_def)






















subsection \<open>Prose lines: the RFC case\<close>

lemma fieldsFrom_Nil: "fieldsFrom uni cur [] = (if cur = [] then [] else [cur])"
  by (subst fieldsFrom.simps) simp

lemma fieldsFrom_fieldByte:
  assumes "fieldByte c"
  shows "fieldsFrom uni cur (c # s) = fieldsFrom uni (cur @ [c]) s"
proof -
  from assms have lo: "byte c < 0x80"
    by (auto simp: fieldByte_def isASCIILetter_def isASCIIDigit_def byte_def)
  from assms have "classOf uni (byte c) \<noteq> OtherRune \<or> c = CHR ''.''"
    by (auto simp: fieldByte_def isASCIILetter_def isASCIIDigit_def classOf_def)
  then show ?thesis
    by (subst fieldsFrom.simps)
       (auto simp: runeAt_def DecodeRune_low[OF lo] simp del: DecodeRune.simps)
qed

lemma fieldsFrom_sepByte:
  assumes "sepByte c"
  shows "fieldsFrom uni cur (c # s) = (if cur = [] then [] else [cur]) @ fieldsFrom uni [] s"
proof -
  from assms have lo: "byte c < 0x80" by (simp add: sepByte_def)
  from assms have "classOf uni (byte c) = OtherRune" "c \<noteq> CHR ''.''"
    by (auto simp: sepByte_def fieldByte_def isASCIILetter_def isASCIIDigit_def classOf_def)
  then show ?thesis
    by (subst fieldsFrom.simps)
       (simp add: runeAt_def DecodeRune_low[OF lo] del: DecodeRune.simps)
qed

lemma fieldsFrom_field:
  "list_all fieldByte f \<Longrightarrow> fieldsFrom uni cur (f @ s) = fieldsFrom uni (cur @ f) s"
  by (induction f arbitrary: cur) (simp_all add: fieldsFrom_fieldByte)

lemma fieldsFrom_skip:
  "list_all sepByte w \<Longrightarrow> fieldsFrom uni [] (w @ s) = fieldsFrom uni [] s"
  by (induction w) (simp_all add: fieldsFrom_sepByte)

lemma fieldsFrom_sep:
  assumes "list_all sepByte w" "w \<noteq> []" "cur \<noteq> []"
  shows "fieldsFrom uni cur (w @ s) = cur # fieldsFrom uni [] s"
proof -
  from assms obtain c w' where w: "w = c # w'" by (cases w) auto
  with assms(1) have "sepByte c" "list_all sepByte w'" by simp_all
  then show ?thesis
    using assms(3) unfolding w by (simp add: fieldsFrom_sepByte fieldsFrom_skip)
qed

text \<open>A field, separators, and what follows.\<close>

lemma fieldsFrom_field_sep:
  assumes "list_all fieldByte f" "f \<noteq> []" "list_all sepByte w" "w \<noteq> []"
  shows "fieldsFrom uni [] (f @ w @ s) = f # fieldsFrom uni [] s"
  using assms by (simp add: fieldsFrom_field fieldsFrom_sep)

lemma fieldsFrom_field_end:
  assumes "list_all fieldByte f" "f \<noteq> []"
  shows "fieldsFrom uni [] f = [f]"
  using assms fieldsFrom_field[of f uni "[]" "[]"] by (simp add: fieldsFrom_Nil)

lemma takeWhile_take: "take (length (takeWhile P xs)) xs = takeWhile P xs"
  by (metis takeWhile_eq_take)

lemma list_all_takeWhile: "list_all P (takeWhile P xs)"
  by (induction xs) auto

lemma dottedLen_bytes:
  "list_all (\<lambda>c. isASCIIDigit c \<or> c = CHR ''.'') (take (dottedLen s) s)"
proof (induction s rule: dottedLen.induct)
  case (1 s)
  show ?case
  proof (cases s)
    case Nil
    then show ?thesis by simp
  next
    case (Cons c t)
    let ?d = "length (takeWhile isASCIIDigit t)"
    show ?thesis
    proof (cases "c = CHR ''.'' \<and> ?d > 0")
      case False
      then have "dottedLen s = 0" unfolding Cons by (subst dottedLen.simps) (auto simp: Let_def)
      then show ?thesis by simp
    next
      case True
      then have e: "dottedLen (c # t) = Suc (?d + dottedLen (drop ?d t))"
        by (subst dottedLen.simps) (simp add: Let_def)
      from 1[OF Cons refl] True
      have ih: "list_all (\<lambda>c. isASCIIDigit c \<or> c = CHR ''.'')
                  (take (dottedLen (drop ?d t)) (drop ?d t))" by simp
      have "take (dottedLen s) s
              = c # takeWhile isASCIIDigit t @ take (dottedLen (drop ?d t)) (drop ?d t)"
        unfolding Cons e by (simp add: take_add takeWhile_take)
      moreover have "list_all (\<lambda>c. isASCIIDigit c \<or> c = CHR ''.'') (takeWhile isASCIIDigit t)"
        using list_all_takeWhile[of isASCIIDigit t] by (simp add: list_all_iff)
      ultimately show ?thesis using True ih by simp
    qed
  qed
qed

lemma sectionLen_shape:
  assumes a: "sectionLen s = Some m"
  shows "\<exists>sep sec ws num. take m s = sep @ sec @ ws @ num
     \<and> sep \<noteq> [] \<and> list_all (\<lambda>c. c = CHR '','' \<or> rxSpace c) sep
     \<and> (sec = ''Section'' \<or> sec = ''section'')
     \<and> ws \<noteq> [] \<and> list_all rxSpace ws
     \<and> num \<noteq> [] \<and> list_all (\<lambda>c. isASCIIDigit c \<or> c = CHR ''.'') num"
proof -
  define c :: nat where "c = (if prefix '','' s then 1 else 0)"
  define s1 where "s1 = drop c s"
  define w1 where "w1 = length (takeWhile rxSpace s1)"
  define s2 where "s2 = drop w1 s1"
  define s3 where "s3 = drop 7 s2"
  define w2 where "w2 = length (takeWhile rxSpace s3)"
  define s4 where "s4 = drop w2 s3"
  define d where "d = length (takeWhile isASCIIDigit s4)"
  define e where "e = dottedLen (drop d s4)"
  have eq: "sectionLen s =
      (if w1 > 0 \<and> (prefix ''Section'' s2 \<or> prefix ''section'' s2) \<and> w2 > 0 \<and> d > 0
       then Some (c + w1 + 7 + w2 + d + e) else None)"
    unfolding sectionLen_def Let_def c_def s1_def w1_def s2_def s3_def w2_def s4_def d_def e_def
    by (rule refl)
  from a have m: "m = c + w1 + 7 + w2 + (d + e)"
    and sec: "prefix ''Section'' s2 \<or> prefix ''section'' s2"
    and pos: "w1 > 0" "w2 > 0" "d > 0"
    unfolding eq by (auto split: if_splits)
  have t: "take m s = take c s @ take w1 s1 @ take 7 s2 @ take w2 s3 @ take d s4 @ take e (drop d s4)"
    unfolding m s1_def s2_def s3_def s4_def by (simp add: take_add add.assoc)
  have tc: "list_all (\<lambda>c. c = CHR '','' \<or> rxSpace c) (take c s)"
    by (cases s) (auto simp: c_def)
  have t1: "take w1 s1 = takeWhile rxSpace s1" unfolding w1_def by (rule takeWhile_take)
  have t2: "take w2 s3 = takeWhile rxSpace s3" unfolding w2_def by (rule takeWhile_take)
  have t3: "take d s4 = takeWhile isASCIIDigit s4" unfolding d_def by (rule takeWhile_take)
  from sec have t7: "take 7 s2 = ''Section'' \<or> take 7 s2 = ''section''"
    by (auto simp: prefix_def)
  have a1: "list_all rxSpace (take w1 s1)" unfolding t1 by (rule list_all_takeWhile)
  have a2: "list_all rxSpace (take w2 s3)" unfolding t2 by (rule list_all_takeWhile)
  have a3: "list_all (\<lambda>c. isASCIIDigit c \<or> c = CHR ''.'') (take d s4)"
    unfolding t3 using list_all_takeWhile[of isASCIIDigit s4] by (simp add: list_all_iff)
  have a4: "list_all (\<lambda>c. isASCIIDigit c \<or> c = CHR ''.'') (take e (drop d s4))"
    unfolding e_def by (rule dottedLen_bytes)
  from pos have n1: "take w1 s1 \<noteq> []" unfolding t1 w1_def by auto
  from pos have n2: "take w2 s3 \<noteq> []" unfolding t2 w2_def by auto
  from pos have n3: "take d s4 \<noteq> []" unfolding t3 d_def by auto
  from a1 have a1': "list_all (\<lambda>c. c = CHR '','' \<or> rxSpace c) (take w1 s1)"
    by (simp add: list_all_iff)
  show ?thesis
    apply (rule exI[of _ "take c s @ take w1 s1"])
    apply (rule exI[of _ "take 7 s2"])
    apply (rule exI[of _ "take w2 s3"])
    apply (rule exI[of _ "take d s4 @ take e (drop d s4)"])
    using t tc a1' a2 a3 a4 n1 n2 n3 t7 by simp
qed

lemma matchRFC_shape:
  assumes a: "matchRFC s = Some n"
  shows "\<exists>ws ds tl. take n s = ''RFC'' @ ws @ ds @ tl
     \<and> ws \<noteq> [] \<and> list_all rxSpace ws
     \<and> list_all isASCIIDigit ds \<and> 3 \<le> length ds \<and> length ds \<le> 5
     \<and> (tl = [] \<or> (\<exists>sep sec ws2 num. tl = sep @ sec @ ws2 @ num
           \<and> sep \<noteq> [] \<and> list_all (\<lambda>c. c = CHR '','' \<or> rxSpace c) sep
           \<and> (sec = ''Section'' \<or> sec = ''section'')
           \<and> ws2 \<noteq> [] \<and> list_all rxSpace ws2
           \<and> num \<noteq> [] \<and> list_all (\<lambda>c. isASCIIDigit c \<or> c = CHR ''.'') num))"
proof -
  define s1 where "s1 = drop 3 s"
  define w where "w = length (takeWhile rxSpace s1)"
  define s2 where "s2 = drop w s1"
  define d where "d = min 5 (length (takeWhile isASCIIDigit s2))"
  define s3 where "s3 = drop d s2"
  define e where "e = (case sectionLen s3 of None \<Rightarrow> 0 | Some n \<Rightarrow> n)"
  have s2: "s2 = drop (3 + w) s" unfolding s2_def s1_def by (simp add: add.commute)
  have s3: "s3 = drop (3 + w + d) s" unfolding s3_def s2 by (simp add: add.commute)
  have eq: "matchRFC s =
      (if prefix ''RFC'' s then (if w > 0 \<and> d \<ge> 3 then Some (3 + w + d + e) else None) else None)"
    unfolding matchRFC_def Let_def e_def s3 d_def s2 w_def s1_def by (rule refl)
  from a have p: "prefix ''RFC'' s" and n: "n = 3 + w + d + e" and pos: "w > 0" "d \<ge> 3"
    unfolding eq by (auto split: if_splits)
  have t: "take n s = take 3 s @ take w s1 @ take d s2 @ take e s3"
    unfolding n s1_def s2_def s3_def by (simp add: take_add add.assoc)
  from p have t0: "take 3 s = ''RFC''" by (auto simp: prefix_def)
  have t1: "take w s1 = takeWhile rxSpace s1" unfolding w_def by (rule takeWhile_take)
  have a1: "list_all rxSpace (take w s1)" unfolding t1 by (rule list_all_takeWhile)
  from pos have n1: "take w s1 \<noteq> []" unfolding t1 w_def by auto
  have "take d s2 = take d (takeWhile isASCIIDigit s2)"
    unfolding d_def by (metis min.cobounded2 takeWhile_eq_take take_take min.absorb1 min.commute)
  then have a2: "list_all isASCIIDigit (take d s2)"
    using list_all_takeWhile[of isASCIIDigit s2]
    by (auto simp: list_all_iff dest: in_set_takeD)
  have "d \<le> length s2" unfolding d_def using length_takeWhile_le[of isASCIIDigit s2] by simp
  then have l2: "length (take d s2) = d" by simp
  have d5: "d \<le> 5" unfolding d_def by simp
  show ?thesis
  proof (cases "sectionLen s3")
    case None
    then have "e = 0" by (simp add: e_def)
    with t t0 a1 n1 a2 l2 d5 pos show ?thesis
      by (intro exI[of _ "take w s1"] exI[of _ "take d s2"] exI[of _ "[]"]) simp
  next
    case (Some m)
    then have e: "e = m" by (simp add: e_def)
    from sectionLen_shape[OF Some] e t t0 a1 n1 a2 l2 d5 pos show ?thesis
      by (intro exI[of _ "take w s1"] exI[of _ "take d s2"] exI[of _ "take e s3"]) simp
  qed
qed

lemma rxSpace_sepByte: "rxSpace c \<Longrightarrow> sepByte c"
  by (auto simp: rxSpace_def sepByte_def fieldByte_def isASCIILetter_def isASCIIDigit_def byte_def)

lemma comma_sepByte: "sepByte (CHR '','')"
  by (simp add: sepByte_def fieldByte_def isASCIILetter_def isASCIIDigit_def byte_def)

lemma list_all_mono: "list_all P xs \<Longrightarrow> (\<And>x. P x \<Longrightarrow> Q x) \<Longrightarrow> list_all Q xs"
  by (induction xs) auto

lemma not_in_list_all: "list_all P xs \<Longrightarrow> \<not> P x \<Longrightarrow> x \<notin> set xs"
  by (auto simp: list_all_iff)

lemma matchRFC_no_colon:
  assumes "matchRFC s = Some n"
  shows "CHR '':'' \<notin> set (take n s)"
proof -
  from matchRFC_shape[OF assms] obtain ws ds tl where
    w: "take n s = ''RFC'' @ ws @ ds @ tl" and ws: "list_all rxSpace ws"
    and ds: "list_all isASCIIDigit ds"
    and tl: "tl = [] \<or> (\<exists>sep sec ws2 num. tl = sep @ sec @ ws2 @ num
           \<and> sep \<noteq> [] \<and> list_all (\<lambda>c. c = CHR '','' \<or> rxSpace c) sep
           \<and> (sec = ''Section'' \<or> sec = ''section'')
           \<and> ws2 \<noteq> [] \<and> list_all rxSpace ws2
           \<and> num \<noteq> [] \<and> list_all (\<lambda>c. isASCIIDigit c \<or> c = CHR ''.'') num)"
    by blast
  have a: "\<not> rxSpace (CHR '':'')" by (simp add: rxSpace_def)
  have b: "\<not> isASCIIDigit (CHR '':'')" by (simp add: isASCIIDigit_def byte_def)
  have c: "\<not> (CHR '':'' = CHR '','' \<or> rxSpace (CHR '':''))" using a by simp
  have d: "\<not> (isASCIIDigit (CHR '':'') \<or> CHR '':'' = CHR ''.'')" using b by simp
  have n1: "CHR '':'' \<notin> set ws" by (rule not_in_list_all[OF ws a])
  have n2: "CHR '':'' \<notin> set ds" by (rule not_in_list_all[OF ds b])
  from tl have "CHR '':'' \<notin> set tl"
  proof
    assume "tl = []"
    then show ?thesis by simp
  next
    assume "\<exists>sep sec ws2 num. tl = sep @ sec @ ws2 @ num
           \<and> sep \<noteq> [] \<and> list_all (\<lambda>c. c = CHR '','' \<or> rxSpace c) sep
           \<and> (sec = ''Section'' \<or> sec = ''section'')
           \<and> ws2 \<noteq> [] \<and> list_all rxSpace ws2
           \<and> num \<noteq> [] \<and> list_all (\<lambda>c. isASCIIDigit c \<or> c = CHR ''.'') num"
    then obtain sep sec ws2 num where e: "tl = sep @ sec @ ws2 @ num"
      and sep: "list_all (\<lambda>c. c = CHR '','' \<or> rxSpace c) sep"
      and sec: "sec = ''Section'' \<or> sec = ''section''"
      and ws2: "list_all rxSpace ws2"
      and num: "list_all (\<lambda>c. isASCIIDigit c \<or> c = CHR ''.'') num"
      by blast
    have "CHR '':'' \<notin> set sep" by (rule not_in_list_all[OF sep c])
    moreover have "CHR '':'' \<notin> set ws2" by (rule not_in_list_all[OF ws2 a])
    moreover have "CHR '':'' \<notin> set num" by (rule not_in_list_all[OF num d])
    moreover from sec have "CHR '':'' \<notin> set sec" by auto
    ultimately show ?thesis unfolding e by simp
  qed
  with n1 n2 show ?thesis unfolding w by simp
qed

lemma rfc_not_url:
  assumes "matchRFC s = Some n"
  shows "\<not> Contains (take n s) ''://''"
proof
  assume "Contains (take n s) ''://''"
  then have "CHR '':'' \<in> set (take n s)" by (rule Contains_member)
  with matchRFC_no_colon[OF assms] show False by simp
qed

lemma rfc_is_rfcCase:
  assumes "matchRFC s = Some n"
  shows "rfcCase (take n s)"
proof -
  from matchRFC_shape[OF assms] obtain ws ds tl where
    w: "take n s = ''RFC'' @ ws @ ds @ tl" and ws: "ws \<noteq> []" "list_all rxSpace ws"
    by blast
  from ws obtain c ws' where c: "ws = c # ws'" "rxSpace c" by (cases ws) auto
  from c(2) have "IsSpaceByte c" by (auto simp: rxSpace_def IsSpaceByte_def byte_def)
  then show ?thesis unfolding rfcCase_def w c(1) by simp
qed

text \<open>The fields of a match of \<open>rfcRx\<close>: \<open>RFC\<close> and the number, or \<open>RFC\<close>, the number,
  the word \<open>Section\<close> or \<open>section\<close> and the number of the section.\<close>

lemma rfcFields_shape:
  assumes "matchRFC s = Some n"
  shows "\<exists>N. list_all isASCIIDigit N \<and> 3 \<le> length N \<and> length N \<le> 5
     \<and> (rfcFieldsOf uni (take n s) = [''RFC'', N]
         \<or> (\<exists>S M. (S = ''Section'' \<or> S = ''section'') \<and> M \<noteq> []
               \<and> list_all (\<lambda>c. isASCIIDigit c \<or> c = CHR ''.'') M
               \<and> rfcFieldsOf uni (take n s) = [''RFC'', N, S, M]))"
proof -
  from matchRFC_shape[OF assms] obtain ws ds tl where
    w: "take n s = ''RFC'' @ ws @ ds @ tl" and ws: "ws \<noteq> []" "list_all rxSpace ws"
    and ds: "list_all isASCIIDigit ds" "3 \<le> length ds" "length ds \<le> 5"
    and tl: "tl = [] \<or> (\<exists>sep sec ws2 num. tl = sep @ sec @ ws2 @ num
           \<and> sep \<noteq> [] \<and> list_all (\<lambda>c. c = CHR '','' \<or> rxSpace c) sep
           \<and> (sec = ''Section'' \<or> sec = ''section'')
           \<and> ws2 \<noteq> [] \<and> list_all rxSpace ws2
           \<and> num \<noteq> [] \<and> list_all (\<lambda>c. isASCIIDigit c \<or> c = CHR ''.'') num)"
    by blast
  have rfc: "list_all fieldByte ''RFC''"
    by (simp add: fieldByte_def isASCIILetter_def byte_def)
  from ws(2) have sws: "list_all sepByte ws" by (rule list_all_mono) (rule rxSpace_sepByte)
  from ds(1) have fds: "list_all fieldByte ds"
    by (rule list_all_mono) (simp add: fieldByte_def)
  from ds(2) have nds: "ds \<noteq> []" by auto
  have h: "fieldsFrom uni [] (''RFC'' @ ws @ z) = ''RFC'' # fieldsFrom uni [] z" for z
    by (rule fieldsFrom_field_sep[OF rfc _ sws ws(1)]) simp
  from tl show ?thesis
  proof
    assume e: "tl = []"
    have "fieldsFrom uni [] (''RFC'' @ ws @ ds) = ''RFC'' # fieldsFrom uni [] ds" by (rule h)
    also have "fieldsFrom uni [] ds = [ds]" by (rule fieldsFrom_field_end[OF fds nds])
    finally have "rfcFieldsOf uni (take n s) = [''RFC'', ds]"
      unfolding rfcFieldsOf_def w e by simp
    with ds show ?thesis by (intro exI[of _ ds]) simp
  next
    assume "\<exists>sep sec ws2 num. tl = sep @ sec @ ws2 @ num
           \<and> sep \<noteq> [] \<and> list_all (\<lambda>c. c = CHR '','' \<or> rxSpace c) sep
           \<and> (sec = ''Section'' \<or> sec = ''section'')
           \<and> ws2 \<noteq> [] \<and> list_all rxSpace ws2
           \<and> num \<noteq> [] \<and> list_all (\<lambda>c. isASCIIDigit c \<or> c = CHR ''.'') num"
    then obtain sep sec ws2 num where e: "tl = sep @ sec @ ws2 @ num"
      and sep: "sep \<noteq> []" "list_all (\<lambda>c. c = CHR '','' \<or> rxSpace c) sep"
      and sec: "sec = ''Section'' \<or> sec = ''section''"
      and ws2: "ws2 \<noteq> []" "list_all rxSpace ws2"
      and num: "num \<noteq> []" "list_all (\<lambda>c. isASCIIDigit c \<or> c = CHR ''.'') num"
      by blast
    from sep(2) have ssep: "list_all sepByte sep"
      by (rule list_all_mono) (auto intro: rxSpace_sepByte comma_sepByte)
    from sec have fsec: "list_all fieldByte sec"
      by (auto simp: fieldByte_def isASCIILetter_def byte_def)
    from sec have nsec: "sec \<noteq> []" by auto
    from ws2(2) have sws2: "list_all sepByte ws2" by (rule list_all_mono) (rule rxSpace_sepByte)
    from num(2) have fnum: "list_all fieldByte num"
      by (rule list_all_mono) (auto simp: fieldByte_def)
    have "fieldsFrom uni [] (''RFC'' @ ws @ ds @ sep @ sec @ ws2 @ num)
            = ''RFC'' # fieldsFrom uni [] (ds @ sep @ sec @ ws2 @ num)"
      by (rule h)
    also have "fieldsFrom uni [] (ds @ sep @ sec @ ws2 @ num)
            = ds # fieldsFrom uni [] (sec @ ws2 @ num)"
      by (rule fieldsFrom_field_sep[OF fds nds ssep sep(1)])
    also have "fieldsFrom uni [] (sec @ ws2 @ num) = sec # fieldsFrom uni [] num"
      by (rule fieldsFrom_field_sep[OF fsec nsec sws2 ws2(1)])
    also have "fieldsFrom uni [] num = [num]"
      by (rule fieldsFrom_field_end[OF fnum num(1)])
    finally have f: "rfcFieldsOf uni (take n s) = [''RFC'', ds, sec, num]"
      unfolding rfcFieldsOf_def w e by simp
    have "\<exists>S M. (S = ''Section'' \<or> S = ''section'') \<and> M \<noteq> []
               \<and> list_all (\<lambda>c. isASCIIDigit c \<or> c = CHR ''.'') M
               \<and> rfcFieldsOf uni (take n s) = [''RFC'', ds, S, M]"
      using sec num f by (intro exI[of _ sec] exI[of _ num]) simp
    with ds show ?thesis by (intro exI[of _ ds]) simp
  qed
qed

text \<open>
  C4. One iteration of the loop of \<open>formatLineHTML\<close> whose match is an RFC reference (the
  URL alternative does not match at the place of the match, \<open>rfcRx\<close> does): the fields
  of the match are \<open>RFC\<close> and the number \<open>N\<close> of 3 to 5 digits, or these two, the word
  \<open>Section\<close> or \<open>section\<close>, and the number \<open>M\<close> of the section. With two fields the
  iteration appends the link to \<open>rfcN.html\<close>, with four the link to
  \<open>rfcN.html#section-M\<close>, in both cases with the match as its text. There is no match
  with fewer than two fields.
\<close>

theorem C4_rfc_link:
  assumes find: "FindStringIndex uni (rest st) = Some (m0, m1)"
    and nourl: "matchURL (drop m0 (rest st)) = None"
    and rfc: "matchRFC (drop m0 (rest st)) = Some n"
    and word: "word = take (m1 - m0) (drop m0 (rest st))"
  shows "\<exists>st1 N. lineStep uni disableHotlinking idr st = Some st1
     \<and> rest st1 = drop m1 (rest st)
     \<and> numQuotes st1 = numQuotes st + (if m0 > 0 then countQuotes (take m0 (rest st)) else 0)
          + countQuotes word
     \<and> lastChar st1 = (if m0 > 0 then rest st ! (m0 - 1) else lastChar st)
     \<and> list_all isASCIIDigit N \<and> 3 \<le> length N \<and> length N \<le> 5
     \<and> ((rfcFieldsOf uni word = [''RFC'', N]
           \<and> htmls st1 = htmls st
                @ (if m0 > 0 then [HTMLEscaped (take m0 (rest st))] else [])
                @ [LinkHTML (''https://rfc-editor.org/rfc/rfc'' @ N @ ''.html'') word])
         \<or> (\<exists>S M. (S = ''Section'' \<or> S = ''section'') \<and> M \<noteq> []
               \<and> list_all (\<lambda>c. isASCIIDigit c \<or> c = CHR ''.'') M
               \<and> rfcFieldsOf uni word = [''RFC'', N, S, M]
               \<and> htmls st1 = htmls st
                    @ (if m0 > 0 then [HTMLEscaped (take m0 (rest st))] else [])
                    @ [LinkHTML (''https://rfc-editor.org/rfc/rfc'' @ N @ ''.html#section-'' @ M)
                         word]))"
proof -
  let ?ln = "rest st"
  let ?pre = "if m0 > 0 then [HTMLEscaped (take m0 ?ln)] else []"
  from FindStringIndex_Some[OF find] have lt: "m0 < m1" and le: "m1 \<le> length ?ln"
    and m: "matchAt uni (drop m0 ?ln) = Some (m1 - m0)" by auto
  from m nourl rfc have n: "n = m1 - m0" by (simp add: matchAt_def)
  have w: "word = take n (drop m0 ?ln)" by (simp add: word n)
  from rfc_not_url[OF rfc] have nu: "\<not> Contains word ''://''" by (simp add: w)
  from rfc_is_rfcCase[OF rfc] have rc: "rfcCase word" by (simp add: w)
  have step: "\<exists>st1. lineStep uni disableHotlinking idr st = Some st1
     \<and> rest st1 = drop m1 ?ln
     \<and> numQuotes st1 = numQuotes st + (if m0 > 0 then countQuotes (take m0 ?ln) else 0)
          + countQuotes word
     \<and> lastChar st1 = (if m0 > 0 then ?ln ! (m0 - 1) else lastChar st)
     \<and> htmls st1 = htmls st @ ?pre @ rfcLink uni word"
    using find lt nu rc unfolding word by (cases "m0 > 0") (auto simp: lineStep_def Let_def)
  then obtain st1 where s: "lineStep uni disableHotlinking idr st = Some st1"
    "rest st1 = drop m1 ?ln"
    "numQuotes st1 = numQuotes st + (if m0 > 0 then countQuotes (take m0 ?ln) else 0)
          + countQuotes word"
    "lastChar st1 = (if m0 > 0 then ?ln ! (m0 - 1) else lastChar st)"
    "htmls st1 = htmls st @ ?pre @ rfcLink uni word"
    by blast
  from rfcFields_shape[OF rfc, of uni] obtain N where
    N: "list_all isASCIIDigit N" "3 \<le> length N" "length N \<le> 5"
    and f: "rfcFieldsOf uni word = [''RFC'', N]
         \<or> (\<exists>S M. (S = ''Section'' \<or> S = ''section'') \<and> M \<noteq> []
               \<and> list_all (\<lambda>c. isASCIIDigit c \<or> c = CHR ''.'') M
               \<and> rfcFieldsOf uni word = [''RFC'', N, S, M])"
    unfolding w by blast
  from f have "(rfcFieldsOf uni word = [''RFC'', N]
           \<and> htmls st1 = htmls st @ ?pre
                @ [LinkHTML (''https://rfc-editor.org/rfc/rfc'' @ N @ ''.html'') word])
         \<or> (\<exists>S M. (S = ''Section'' \<or> S = ''section'') \<and> M \<noteq> []
               \<and> list_all (\<lambda>c. isASCIIDigit c \<or> c = CHR ''.'') M
               \<and> rfcFieldsOf uni word = [''RFC'', N, S, M]
               \<and> htmls st1 = htmls st @ ?pre
                    @ [LinkHTML (''https://rfc-editor.org/rfc/rfc'' @ N @ ''.html#section-'' @ M)
                         word])"
  proof
    assume a: "rfcFieldsOf uni word = [''RFC'', N]"
    then have "rfcLink uni word = [LinkHTML (''https://rfc-editor.org/rfc/rfc'' @ N @ ''.html'') word]"
      by (simp add: rfcLink_def Let_def)
    with a s(5) show ?thesis by simp
  next
    assume "\<exists>S M. (S = ''Section'' \<or> S = ''section'') \<and> M \<noteq> []
               \<and> list_all (\<lambda>c. isASCIIDigit c \<or> c = CHR ''.'') M
               \<and> rfcFieldsOf uni word = [''RFC'', N, S, M]"
    then obtain S M where b: "S = ''Section'' \<or> S = ''section''" "M \<noteq> []"
      "list_all (\<lambda>c. isASCIIDigit c \<or> c = CHR ''.'') M"
      and a: "rfcFieldsOf uni word = [''RFC'', N, S, M]" by blast
    from a have "rfcLink uni word
        = [LinkHTML (''https://rfc-editor.org/rfc/rfc'' @ N @ ''.html#section-'' @ M) word]"
      by (simp add: rfcLink_def Let_def)
    with s(5) have "htmls st1 = htmls st @ ?pre
        @ [LinkHTML (''https://rfc-editor.org/rfc/rfc'' @ N @ ''.html#section-'' @ M) word]"
      by simp
    with a b have "\<exists>S M. (S = ''Section'' \<or> S = ''section'') \<and> M \<noteq> []
               \<and> list_all (\<lambda>c. isASCIIDigit c \<or> c = CHR ''.'') M
               \<and> rfcFieldsOf uni word = [''RFC'', N, S, M]
               \<and> htmls st1 = htmls st @ ?pre
                    @ [LinkHTML (''https://rfc-editor.org/rfc/rfc'' @ N @ ''.html#section-'' @ M)
                         word]"
      by (intro exI[of _ S] exI[of _ M]) simp
    then show ?thesis by (rule disjI2)
  qed
  with s(1-4) N show ?thesis by (intro exI[of _ st1] exI[of _ N]) simp
qed

theorem C4_rfc_link_witness:
  "formatLineHTML asciiTables False True ''RFC 2616, Section 3''
     = Some (HTMLConcat [LinkHTML ''https://rfc-editor.org/rfc/rfc2616.html#section-3''
                           ''RFC 2616, Section 3''])
   \<and> formatLineHTML asciiTables False True ''RFC 2616''
     = Some (HTMLConcat [LinkHTML ''https://rfc-editor.org/rfc/rfc2616.html'' ''RFC 2616''])"
proof -
  let ?f = "formatLoop asciiTables False True"
  let ?s = "\<lparr>rest = ''RFC 2616, Section 3'', lastChar = CHR 0x00, numQuotes = 0, htmls = []\<rparr>"
  let ?t = "\<lparr>rest = ''RFC 2616'', lastChar = CHR 0x00, numQuotes = 0, htmls = []\<rparr>"
  have f1: "FindStringIndex asciiTables (rest ?s) = Some (0, 19)"
    and u1: "matchURL (drop 0 (rest ?s)) = None"
    and r1: "matchRFC (drop 0 (rest ?s)) = Some 19"
    and w1: "''RFC 2616, Section 3'' = take (19 - 0) (drop 0 (rest ?s))"
    by (simp_all add: rx_defs)
  have e1: "rfcFieldsOf asciiTables ''RFC 2616, Section 3''
              = [''RFC'', ''2616'', ''Section'', ''3'']"
    by (simp add: rfcFieldsOf_def fieldsFrom.simps runeAt_def classOf_def byte_def)
  from C4_rfc_link[OF f1 u1 r1 w1, of False True] obtain a N where
    a: "lineStep asciiTables False True ?s = Some a" "rest a = drop 19 (rest ?s)"
    and d: "(rfcFieldsOf asciiTables ''RFC 2616, Section 3'' = [''RFC'', N]
           \<and> htmls a = htmls ?s
                @ (if (0::nat) > 0 then [HTMLEscaped (take 0 (rest ?s))] else [])
                @ [LinkHTML (''https://rfc-editor.org/rfc/rfc'' @ N @ ''.html'')
                     ''RFC 2616, Section 3''])
         \<or> (\<exists>S M. (S = ''Section'' \<or> S = ''section'') \<and> M \<noteq> []
               \<and> list_all (\<lambda>c. isASCIIDigit c \<or> c = CHR ''.'') M
               \<and> rfcFieldsOf asciiTables ''RFC 2616, Section 3'' = [''RFC'', N, S, M]
               \<and> htmls a = htmls ?s
                    @ (if (0::nat) > 0 then [HTMLEscaped (take 0 (rest ?s))] else [])
                    @ [LinkHTML (''https://rfc-editor.org/rfc/rfc'' @ N @ ''.html#section-'' @ M)
                         ''RFC 2616, Section 3''])"
    by blast
  from d have ha: "htmls a = [LinkHTML ''https://rfc-editor.org/rfc/rfc2616.html#section-3''
                           ''RFC 2616, Section 3'']"
    unfolding e1 by auto
  from a(2) have ra: "rest a = []" by simp
  have l1: "?f ?s = Some [LinkHTML ''https://rfc-editor.org/rfc/rfc2616.html#section-3''
                           ''RFC 2616, Section 3'']"
    by (subst formatLoop.simps, simp add: a(1) ra, subst formatLoop.simps, simp add: ra ha)
  have f2: "FindStringIndex asciiTables (rest ?t) = Some (0, 8)"
    and u2: "matchURL (drop 0 (rest ?t)) = None"
    and r2: "matchRFC (drop 0 (rest ?t)) = Some 8"
    and w2: "''RFC 2616'' = take (8 - 0) (drop 0 (rest ?t))"
    by (simp_all add: rx_defs)
  have e2: "rfcFieldsOf asciiTables ''RFC 2616'' = [''RFC'', ''2616'']"
    by (simp add: rfcFieldsOf_def fieldsFrom.simps runeAt_def classOf_def byte_def)
  from C4_rfc_link[OF f2 u2 r2 w2, of False True] obtain b K where
    b: "lineStep asciiTables False True ?t = Some b" "rest b = drop 8 (rest ?t)"
    and d': "(rfcFieldsOf asciiTables ''RFC 2616'' = [''RFC'', K]
           \<and> htmls b = htmls ?t
                @ (if (0::nat) > 0 then [HTMLEscaped (take 0 (rest ?t))] else [])
                @ [LinkHTML (''https://rfc-editor.org/rfc/rfc'' @ K @ ''.html'') ''RFC 2616''])
         \<or> (\<exists>S M. (S = ''Section'' \<or> S = ''section'') \<and> M \<noteq> []
               \<and> list_all (\<lambda>c. isASCIIDigit c \<or> c = CHR ''.'') M
               \<and> rfcFieldsOf asciiTables ''RFC 2616'' = [''RFC'', K, S, M]
               \<and> htmls b = htmls ?t
                    @ (if (0::nat) > 0 then [HTMLEscaped (take 0 (rest ?t))] else [])
                    @ [LinkHTML (''https://rfc-editor.org/rfc/rfc'' @ K @ ''.html#section-'' @ M)
                         ''RFC 2616''])"
    by blast
  from d' have hb: "htmls b = [LinkHTML ''https://rfc-editor.org/rfc/rfc2616.html'' ''RFC 2616'']"
    unfolding e2 by auto
  from b(2) have rb: "rest b = []" by simp
  have l2: "?f ?t = Some [LinkHTML ''https://rfc-editor.org/rfc/rfc2616.html'' ''RFC 2616'']"
    by (subst formatLoop.simps, simp add: b(1) rb, subst formatLoop.simps, simp add: rb hb)
  show ?thesis
    unfolding formatLineHTML_def using l1 l2 by simp
qed

end
